theory Spec2Isabelle
  imports Complex_Main "HOL-Library.Sublist"
begin

section \<open>Data model of audio.js\<close>

text \<open>
  The embedding follows \<^verbatim>\<open>audio.js\<close> (classes \<^verbatim>\<open>AudioManager\<close> and
  \<^verbatim>\<open>AudioSequence\<close>). JavaScript strings are modelled as \<^typ>\<open>string\<close>, read as
  UTF-8 bytes; JavaScript numbers used for volume, pan and start time are modelled as
  \<^typ>\<open>real\<close> (only comparisons with the constants 0 and 1 are made on them); timer
  delays and the timer clock are natural numbers of milliseconds.
\<close>

datatype js_error = Error string | TypeError string

text \<open>
  A completion callback is either the closure \<^verbatim>\<open>(e) => this.callback()\<close> that
  \<^verbatim>\<open>AudioSequence.doNext\<close> creates (it refers to its sequence object) or a function
  supplied by the game, which is opaque here.
\<close>

datatype callback = SequenceCallback nat | ExternalCallback nat

datatype audio_node =
    AudioBufferSourceNode nat bool "callback option"
  | UnsetBufferSourceNode
  | GainNode real
  | StereoPannerNode real

datatype node_ref = NodeRef nat | ContextDestination

text \<open>
  The \<^verbatim>\<open>AudioContext\<close>: the nodes created so far (a node is referred to by its
  position), the \<^verbatim>\<open>connect\<close> calls, the \<^verbatim>\<open>start(when)\<close> and \<^verbatim>\<open>stop()\<close>
  calls on source nodes, and the reading of \<^verbatim>\<open>context.currentTime\<close>.
\<close>

record audio_context =
  nodes :: "audio_node list"
  connections :: "(node_ref \<times> node_ref) list"
  started :: "(nat \<times> real) list"
  stopped :: "nat list"
  currentTime :: real

record loop_entry =
  soundName :: string
  loopHandle :: nat
  isPlaying :: bool

record cue_item =
  item :: string
  mediaType :: string
  prefs :: "string option option"

record audio_sequence =
  seq_queue :: "cue_item list"
  spacing :: nat
  playing :: bool
  currentItem :: "cue_item option"
  seq_isPlaying :: bool

record utterance =
  utt_text :: string
  utt_onend :: "callback option"
  utt_rate :: real
  utt_voice :: "string option"

datatype notification = SoundEffectEvent string real real bool | SpeakEvent string

text \<open>
  Observation log, never read by the program: \<open>Invoked q it t\<close> records that
  \<^verbatim>\<open>doNext\<close> of sequence \<open>q\<close> handed item \<open>it\<close> to \<^verbatim>\<open>speak\<close> or
  \<^verbatim>\<open>play\<close> at time \<open>t\<close>, \<open>Finished q t\<close> that the completion callback of sequence
  \<open>q\<close> ran at time \<open>t\<close>.
\<close>

datatype trace_entry = Invoked nat cue_item nat | Finished nat nat

text \<open>
  The state: the fields of the \<^verbatim>\<open>AudioManager\<close> (\<open>ctx\<close> for \<^verbatim>\<open>context\<close>,
  \<open>current_queue\<close> for \<^verbatim>\<open>queue\<close>), the \<^verbatim>\<open>AudioSequence\<close> objects allocated so far
  (a reference is a position in \<open>sequences\<close>), and the browser: the utterances handed to
  \<^verbatim>\<open>speechSynthesis.speak\<close>, the voices of \<^verbatim>\<open>getVoices()\<close>, the events given to
  \<^verbatim>\<open>window.dispatchEvent\<close>, the completion callbacks (\<^verbatim>\<open>onended\<close>, \<^verbatim>\<open>onend\<close>)
  that may still fire, the timers set by \<^verbatim>\<open>sleep\<close> (due time and the sequence whose
  \<^verbatim>\<open>doNext\<close> resumes), the timer clock, and the exceptions raised so far.

  The sound library is a plain object: \<open>soundLibrary\<close> holds its own properties and
  \<open>library_prototype\<close> says what it inherits from, \<^verbatim>\<open>Object.prototype\<close> (\<open>None\<close>) or
  one of the decoded buffers (see \<open>addSound\<close>). \<open>UnsetBufferSourceNode\<close> is a source
  node as \<^verbatim>\<open>createBufferSource\<close> returns it, before \<^verbatim>\<open>play\<close> has set anything on it.
\<close>

record world =
  ctx :: audio_context
  soundLibrary :: "string \<rightharpoonup> nat"
  library_prototype :: "nat option"
  loops :: "loop_entry list"
  initialized :: bool
  current_queue :: "nat option"
  sequences :: "audio_sequence list"
  utterances :: "utterance list"
  voices :: "string list"
  events :: "notification list"
  pending :: "callback list"
  timers :: "(nat \<times> nat) list"
  clock :: nat
  errors :: "js_error list"
  history :: "trace_entry list"

definition new_AudioContext :: audio_context where
  "new_AudioContext =
     \<lparr>nodes = [], connections = [], started = [], stopped = [], currentTime = 0\<rparr>"

text \<open>The \<^verbatim>\<open>AudioManager\<close> constructor, in a browser that has done nothing yet.\<close>

definition new_AudioManager :: "string list \<Rightarrow> world" where
  "new_AudioManager vs =
     \<lparr>ctx = new_AudioContext, soundLibrary = Map.empty, library_prototype = None,
      loops = [], initialized = False,
      current_queue = None, sequences = [], utterances = [], voices = vs, events = [],
      pending = [], timers = [], clock = 0, errors = [], history = []\<rparr>"

definition getTime :: "world \<Rightarrow> real" where
  "getTime w = currentTime (ctx w)"

text \<open>
  \<^verbatim>\<open>addSound\<close> once fetch and decoding have succeeded with buffer \<open>b\<close>: the assignment
  \<^verbatim>\<open>this.soundLibrary[name] = audioBuffer\<close>. On a plain object the name
  \<^verbatim>\<open>__proto__\<close> is the inherited accessor, whose setter makes the buffer the prototype
  of the library instead of storing a property.
\<close>

definition addSound :: "string \<Rightarrow> nat \<Rightarrow> world \<Rightarrow> world" where
  "addSound name b w =
     (if name = ''__proto__'' then w\<lparr>library_prototype := Some b\<rparr>
      else w\<lparr>soundLibrary := (soundLibrary w)(name \<mapsto> b)\<rparr>)"

text \<open>
  The string-named properties that every plain object inherits from
  \<^verbatim>\<open>Object.prototype\<close>, and those of \<^verbatim>\<open>AudioBuffer.prototype\<close> (attributes, whose
  getters refuse a receiver that is not a buffer, and methods).
\<close>

definition object_prototype_names :: "string list" where
  "object_prototype_names =
     [''constructor'', ''__defineGetter__'', ''__defineSetter__'', ''hasOwnProperty'',
      ''__lookupGetter__'', ''__lookupSetter__'', ''isPrototypeOf'',
      ''propertyIsEnumerable'', ''toString'', ''valueOf'', ''__proto__'',
      ''toLocaleString'']"

definition audio_buffer_attributes :: "string list" where
  "audio_buffer_attributes = [''sampleRate'', ''length'', ''duration'', ''numberOfChannels'']"

definition audio_buffer_methods :: "string list" where
  "audio_buffer_methods = [''getChannelData'', ''copyFromChannel'', ''copyToChannel'']"

datatype property_value = BufferValue nat | OtherValue | GetterThrows

text \<open>
  \<open>library_lookup w name\<close> is \<open>None\<close> when \<^verbatim>\<open>name in this.soundLibrary\<close> is false, and
  otherwise says what \<^verbatim>\<open>this.soundLibrary[name]\<close> does: it yields a decoded buffer,
  yields some other value (an inherited function or object), or throws.
\<close>

definition library_lookup :: "world \<Rightarrow> string \<Rightarrow> property_value option" where
  "library_lookup w name =
     (case soundLibrary w name of
        Some b \<Rightarrow> Some (BufferValue b)
      | None \<Rightarrow>
          if name = ''__proto__'' then
            Some (case library_prototype w of Some b \<Rightarrow> BufferValue b | None \<Rightarrow> OtherValue)
          else if library_prototype w \<noteq> None \<and> name \<in> set audio_buffer_attributes then
            Some GetterThrows
          else if name \<in> set object_prototype_names \<or>
                  (library_prototype w \<noteq> None \<and> name \<in> set audio_buffer_methods) then
            Some OtherValue
          else None)"

section \<open>play and stopLoop\<close>

record play_options =
  callback :: "callback option"
  volume :: real
  panValue :: real
  loop :: bool
  offset :: real

definition default_options :: play_options where
  "default_options = \<lparr>callback = None, volume = 1, panValue = 0, loop = False, offset = 0\<rparr>"

definition create_node :: "audio_node \<Rightarrow> audio_context \<Rightarrow> nat \<times> audio_context" where
  "create_node n c = (length (nodes c), c\<lparr>nodes := nodes c @ [n]\<rparr>)"

definition connect :: "nat \<Rightarrow> node_ref \<Rightarrow> audio_context \<Rightarrow> audio_context" where
  "connect a b c = c\<lparr>connections := connections c @ [(NodeRef a, b)]\<rparr>"

text \<open>The two optional stages between the sample and the output (lines 116 to 125).\<close>

definition add_volume :: "real \<Rightarrow> nat \<times> audio_context \<Rightarrow> nat \<times> audio_context" where
  "add_volume v cc =
     (if v \<noteq> 1
      then (let (volumeNode, c1) = create_node (GainNode v) (snd cc)
            in (volumeNode, connect (fst cc) (NodeRef volumeNode) c1))
      else cc)"

definition add_panner :: "real \<Rightarrow> nat \<times> audio_context \<Rightarrow> nat \<times> audio_context" where
  "add_panner p cc =
     (if p \<noteq> 0
      then (let (pannerNode, c1) = create_node (StereoPannerNode p) (snd cc)
            in (pannerNode, connect (fst cc) (NodeRef pannerNode) c1))
      else cc)"

text \<open>
  \<^verbatim>\<open>play\<close>. The source node is created before the buffer is looked up (lines 99 and
  100), so when the lookup throws, or yields a value that the \<^verbatim>\<open>buffer\<close> attribute
  refuses, the new node stays behind and the TypeError leaves \<^verbatim>\<open>play\<close>. The
  messages of the two TypeErrors are the browser's own words, shortened.
\<close>

definition play :: "string \<Rightarrow> play_options \<Rightarrow> world \<Rightarrow> (js_error + nat) \<times> world" where
  "play name opts w =
     (case library_lookup w name of
        None \<Rightarrow> (Inl (Error (''Sound '' @ name @ '' not found'')), w)
      | Some GetterThrows \<Rightarrow>
          (Inl (TypeError ''Illegal invocation''),
           w\<lparr>ctx := snd (create_node UnsetBufferSourceNode (ctx w))\<rparr>)
      | Some OtherValue \<Rightarrow>
          (Inl (TypeError ''The provided value is not of type AudioBuffer''),
           w\<lparr>ctx := snd (create_node UnsetBufferSourceNode (ctx w))\<rparr>)
      | Some (BufferValue buf) \<Rightarrow>
          (let (sampleSource, c1) =
                 create_node (AudioBufferSourceNode buf (loop opts) (callback opts)) (ctx w);
               loops1 = (if loop opts
                         then loops w @ [\<lparr>soundName = name, loopHandle = sampleSource,
                                          isPlaying = True\<rparr>]
                         else loops w);
               (currentNode, c3) =
                 add_panner (panValue opts) (add_volume (volume opts) (sampleSource, c1));
               c4 = connect currentNode ContextDestination c3;
               c5 = c4\<lparr>started := started c4 @ [(sampleSource, offset opts)]\<rparr>
           in (Inr sampleSource,
               w\<lparr>ctx := c5, loops := loops1,
                 pending := pending w @ (case callback opts of None \<Rightarrow> [] | Some cb \<Rightarrow> [cb]),
                 events := events w @
                   [SoundEffectEvent name (panValue opts) (volume opts) (loop opts)]\<rparr>)))"

text \<open>The \<^verbatim>\<open>forEach\<close> of \<^verbatim>\<open>stopLoop\<close>: the handles it stops and the flags it clears.\<close>

definition stopLoop_hit :: "string \<Rightarrow> loop_entry \<Rightarrow> bool" where
  "stopLoop_hit name it = (soundName it = name \<and> isPlaying it)"

definition stopLoop_handles :: "string \<Rightarrow> loop_entry list \<Rightarrow> nat list" where
  "stopLoop_handles name ls = map loopHandle (filter (stopLoop_hit name) ls)"

definition stopLoop_mark :: "string \<Rightarrow> loop_entry list \<Rightarrow> loop_entry list" where
  "stopLoop_mark name ls =
     map (\<lambda>it. if stopLoop_hit name it then it\<lparr>isPlaying := False\<rparr> else it) ls"

definition stopLoop :: "string \<Rightarrow> world \<Rightarrow> world" where
  "stopLoop name w =
     w\<lparr>ctx := (ctx w)\<lparr>stopped := stopped (ctx w) @ stopLoop_handles name (loops w)\<rparr>,
       loops := filter isPlaying (stopLoop_mark name (loops w))\<rparr>"

section \<open>speak\<close>

definition speak ::
  "string \<Rightarrow> callback option \<Rightarrow> string option \<Rightarrow> real \<Rightarrow> world \<Rightarrow> world" where
  "speak txt cb voicePreference speechRate w =
     (let voice = (case voicePreference of
                     None \<Rightarrow> None
                   | Some v \<Rightarrow> find (\<lambda>nm. nm = v) (voices w));
          utt = \<lparr>utt_text = txt, utt_onend = cb, utt_rate = speechRate, utt_voice = voice\<rparr>
      in w\<lparr>utterances := utterances w @ [utt],
           pending := pending w @ (case cb of None \<Rightarrow> [] | Some c \<Rightarrow> [c]),
           events := events w @ [SpeakEvent txt]\<rparr>)"

section \<open>The cue parser of speakWithSoundEffects\<close>

text \<open>\<^verbatim>\<open>formattedText.split(' ')\<close>: every space separates, so runs of spaces give
  empty tokens and the empty string gives one empty token.\<close>

fun split_on_space :: "string \<Rightarrow> string \<Rightarrow> string list" where
  "split_on_space acc [] = [acc]"
| "split_on_space acc (c # cs) =
     (if c = CHR '' '' then acc # split_on_space [] cs else split_on_space (acc @ [c]) cs)"

definition split_space :: "string \<Rightarrow> string list" where
  "split_space s = split_on_space [] s"

text \<open>
  \<^verbatim>\<open>token.match('{{(.*)}}')\<close>: the string becomes the regular expression
  \<^verbatim>\<open>/{{(.*)}}/\<close>, searched from the left and not anchored; the dot matches anything
  but a line terminator (LF, CR, U+2028, U+2029; the last two are three bytes each in
  UTF-8) and the star is greedy.
\<close>

fun line_terminator_at :: "string \<Rightarrow> bool" where
  "line_terminator_at [] = False"
| "line_terminator_at (c # cs) =
     (c = CHR 0x0A \<or> c = CHR 0x0D \<or>
      (c = CHR 0xE2 \<and> (take 2 cs = [CHR 0x80, CHR 0xA8] \<or> take 2 cs = [CHR 0x80, CHR 0xA9])))"

text \<open>The longest capture starting here that is followed by the closing braces.\<close>

fun capture_to_close :: "string \<Rightarrow> string option" where
  "capture_to_close [] = None"
| "capture_to_close (c # cs) =
     (case (if line_terminator_at (c # cs) then None else capture_to_close cs) of
        Some p \<Rightarrow> Some (c # p)
      | None \<Rightarrow> (if c = CHR ''}'' \<and> take 1 cs = [CHR ''}''] then Some [] else None))"

fun match_marker :: "string \<Rightarrow> string option" where
  "match_marker [] = None"
| "match_marker (c # cs) =
     (case (if c = CHR ''{'' \<and> take 1 cs = [CHR ''{'']
            then capture_to_close (drop 1 cs) else None) of
        Some p \<Rightarrow> Some p
      | None \<Rightarrow> match_marker cs)"

text \<open>\<^verbatim>\<open>AudioSequence.add\<close>, on the array of the sequence under construction.\<close>

definition add :: "string \<Rightarrow> string \<Rightarrow> string option option \<Rightarrow> cue_item list \<Rightarrow> cue_item list"
  where
  "add itemToAdd audioType p q = q @ [\<lparr>item = itemToAdd, mediaType = audioType, prefs = p\<rparr>]"

definition flush_buffer :: "string option \<Rightarrow> string \<Rightarrow> cue_item list \<Rightarrow> cue_item list" where
  "flush_buffer voicePreference buffer q =
     (if length buffer > 0 then add buffer ''text'' (Some voicePreference) q else q)"

text \<open>The loop over the tokens (lines 187 to 201) and the final flush (lines 203 to 205).\<close>

fun parse_tokens ::
  "string option \<Rightarrow> string list \<Rightarrow> string \<Rightarrow> cue_item list \<Rightarrow> cue_item list" where
  "parse_tokens voicePreference [] buffer q = flush_buffer voicePreference buffer q"
| "parse_tokens voicePreference (t # ts) buffer q =
     (case match_marker t of
        Some sound \<Rightarrow>
          parse_tokens voicePreference ts []
            (add sound ''sound'' None (flush_buffer voicePreference buffer q))
      | None \<Rightarrow> parse_tokens voicePreference ts (buffer @ '' '' @ t) q)"

definition parse_cues :: "string \<Rightarrow> string option \<Rightarrow> cue_item list" where
  "parse_cues formattedText voicePreference =
     parse_tokens voicePreference (split_space formattedText) [] []"

section \<open>AudioSequence\<close>

text \<open>The constructor; \<^verbatim>\<open>isPlaying\<close> is not set there and reads as false until
  \<^verbatim>\<open>start\<close> sets it.\<close>

definition new_AudioSequence :: "nat \<Rightarrow> audio_sequence" where
  "new_AudioSequence sp =
     \<lparr>seq_queue = [], spacing = sp, playing = False, currentItem = None,
      seq_isPlaying = False\<rparr>"

definition hasNext :: "audio_sequence \<Rightarrow> bool" where
  "hasNext s = (length (seq_queue s) > 0)"

definition cancel :: "nat \<Rightarrow> world \<Rightarrow> world" where
  "cancel q w =
     w\<lparr>sequences := (sequences w)
         [q := (sequences w ! q)\<lparr>seq_isPlaying := False, currentItem := None, seq_queue := []\<rparr>]\<rparr>"

definition log_entry :: "trace_entry \<Rightarrow> world \<Rightarrow> world" where
  "log_entry e w = w\<lparr>history := history w @ [e]\<rparr>"

text \<open>
  \<^verbatim>\<open>doNext\<close>. The class has no method \<^verbatim>\<open>shutdown\<close> (nor has anything else in the
  repository), so the call in the else branch raises a TypeError.
\<close>

definition doNext :: "nat \<Rightarrow> world \<Rightarrow> (js_error + unit) \<times> world" where
  "doNext q w =
     (let s = sequences w ! q in
      if hasNext s \<and> seq_isPlaying s then
        (let firstItem = hd (seq_queue s);
             w1 = w\<lparr>sequences := (sequences w)[q := s\<lparr>seq_queue := tl (seq_queue s)\<rparr>]\<rparr>
         in if mediaType firstItem = ''text'' then
              (case prefs firstItem of
                 None \<Rightarrow> (Inl (TypeError ''firstItem.prefs is undefined''), w1)
               | Some voicePreference \<Rightarrow>
                   (Inr (),
                    log_entry (Invoked q firstItem (clock w))
                      (speak (item firstItem) (Some (SequenceCallback q)) voicePreference
                         1.5 w1)))
            else if mediaType firstItem = ''sound'' then
              (case play (item firstItem)
                      (default_options\<lparr>callback := Some (SequenceCallback q)\<rparr>) w1 of
                 (Inl e, w2) \<Rightarrow> (Inl e, w2)
               | (Inr h, w2) \<Rightarrow> (Inr (), log_entry (Invoked q firstItem (clock w)) w2))
            else (Inl (Error ''invalid media type''), w1))
      else (Inl (TypeError ''this.shutdown is not a function''), w))"

definition start :: "nat \<Rightarrow> world \<Rightarrow> (js_error + unit) \<times> world" where
  "start q w =
     doNext q (w\<lparr>sequences := (sequences w)[q := (sequences w ! q)\<lparr>seq_isPlaying := True\<rparr>]\<rparr>)"

text \<open>
  \<^verbatim>\<open>callback\<close>, run when the speech or sound in flight has ended. \<^verbatim>\<open>sleep\<close> sets a
  timer; the continuation \<^verbatim>\<open>doNext\<close> runs when the timer fires (see \<open>step\<close>).
\<close>

definition seq_callback :: "nat \<Rightarrow> world \<Rightarrow> world" where
  "seq_callback q w =
     (let s = sequences w ! q; w1 = log_entry (Finished q (clock w)) w in
      if \<not> hasNext s then cancel q w1
      else w1\<lparr>timers := timers w1 @ [(clock w1 + spacing s, q)]\<rparr>)"

section \<open>speakWithSoundEffects\<close>

definition speakWithSoundEffects ::
  "string \<Rightarrow> string option \<Rightarrow> world \<Rightarrow> (js_error + nat) \<times> world" where
  "speakWithSoundEffects formattedText voicePreference w =
     (let queue = length (sequences w);
          w1 = w\<lparr>sequences := sequences w @
                 [(new_AudioSequence 100)
                    \<lparr>seq_queue := parse_cues formattedText voicePreference\<rparr>]\<rparr>
      in case start queue w1 of
           (Inl e, w2) \<Rightarrow> (Inl e, w2)
         | (Inr u, w2) \<Rightarrow> (Inr queue, w2\<lparr>current_queue := Some queue\<rparr>))"

section \<open>The browser and the game around the engine\<close>

text \<open>
  What can happen next: time passes; the browser fires one of the completion callbacks
  it still holds (each at most once); a timer that is due fires (\<^verbatim>\<open>setTimeout\<close> never
  fires early); or the game calls a public operation. Callbacks that the game passes are
  its own functions. An exception that escapes is appended to \<open>errors\<close>.
\<close>

datatype event =
    Tick nat
  | CallbackFires nat
  | TimerFires nat
  | Call_addSound string nat
  | Call_play string "nat option" real real bool real
  | Call_stopLoop string
  | Call_speak string "nat option" "string option" real
  | Call_speakWithSoundEffects string "string option"
  | Call_cancel nat

text \<open>Time passes: \<open>d\<close> milliseconds on the timer clock, the same span in seconds on
  the clock of the audio context.\<close>

definition time_passes :: "nat \<Rightarrow> world \<Rightarrow> world" where
  "time_passes d w =
     w\<lparr>clock := clock w + d,
       ctx := (ctx w)\<lparr>currentTime := currentTime (ctx w) + real d / 1000\<rparr>\<rparr>"

definition raised :: "(js_error + 'a) \<times> world \<Rightarrow> world" where
  "raised rw = (case fst rw of Inl e \<Rightarrow> (snd rw)\<lparr>errors := errors (snd rw) @ [e]\<rparr>
                             | Inr x \<Rightarrow> snd rw)"

definition remove_nth :: "nat \<Rightarrow> 'a list \<Rightarrow> 'a list" where
  "remove_nth k xs = take k xs @ drop (Suc k) xs"

fun step :: "event \<Rightarrow> world \<Rightarrow> world" where
  "step (Tick d) w = time_passes d w"
| "step (CallbackFires k) w =
     (if k < length (pending w) then
        (let w1 = w\<lparr>pending := remove_nth k (pending w)\<rparr> in
         case pending w ! k of
           SequenceCallback q \<Rightarrow> seq_callback q w1
         | ExternalCallback f \<Rightarrow> w1)
      else w)"
| "step (TimerFires k) w =
     (if k < length (timers w) \<and> fst (timers w ! k) \<le> clock w then
        raised (doNext (snd (timers w ! k)) (w\<lparr>timers := remove_nth k (timers w)\<rparr>))
      else w)"
| "step (Call_addSound name b) w = addSound name b w"
| "step (Call_play name cb v p l off) w =
     raised (play name \<lparr>callback = map_option ExternalCallback cb, volume = v, panValue = p,
                        loop = l, offset = off\<rparr> w)"
| "step (Call_stopLoop name) w = stopLoop name w"
| "step (Call_speak txt cb vp rate) w = speak txt (map_option ExternalCallback cb) vp rate w"
| "step (Call_speakWithSoundEffects txt vp) w = raised (speakWithSoundEffects txt vp w)"
| "step (Call_cancel q) w = (if q < length (sequences w) then cancel q w else w)"

fun run :: "event list \<Rightarrow> world \<Rightarrow> world" where
  "run [] w = w"
| "run (e # es) w = run es (step e w)"

section \<open>Vocabulary of the properties\<close>

definition is_sound :: "cue_item \<Rightarrow> bool" where
  "is_sound it = (mediaType it = ''sound'')"

definition is_text :: "cue_item \<Rightarrow> bool" where
  "is_text it = (mediaType it = ''text'')"

text \<open>
  The cue markers of a narration string as the specification describes them: the string
  is split on whitespace into tokens (the maximal runs of characters that are not
  whitespace), and a marker is a token that is, as a whole, \<^verbatim>\<open>{{name}}\<close> with no brace
  inside the name. The whitespace characters are tab, line feed, vertical tab, form
  feed, carriage return and space.
\<close>

definition spec_whitespace :: "char \<Rightarrow> bool" where
  "spec_whitespace c =
     (c \<in> set [CHR 0x09, CHR 0x0A, CHR 0x0B, CHR 0x0C, CHR 0x0D, CHR '' ''])"

fun spec_split :: "string \<Rightarrow> string \<Rightarrow> string list" where
  "spec_split acc [] = (if acc = [] then [] else [acc])"
| "spec_split acc (c # cs) =
     (if spec_whitespace c then (if acc = [] then [] else [acc]) @ spec_split [] cs
      else spec_split (acc @ [c]) cs)"

definition spec_tokens :: "string \<Rightarrow> string list" where
  "spec_tokens s = spec_split [] s"

definition has_brace :: "string \<Rightarrow> bool" where
  "has_brace t = (CHR ''{'' \<in> set t \<or> CHR ''}'' \<in> set t)"

definition spec_marker :: "string \<Rightarrow> string option" where
  "spec_marker t =
     (if 4 \<le> length t \<and> take 2 t = ''{{'' \<and> drop (length t - 2) t = ''}}'' \<and>
         \<not> has_brace (take (length t - 4) (drop 2 t))
      then Some (take (length t - 4) (drop 2 t)) else None)"

definition spec_marker_names :: "string \<Rightarrow> string list" where
  "spec_marker_names s = List.map_filter spec_marker (spec_tokens s)"

text \<open>
  The narration strings on which the parser and the specification read the same
  markers: the space is the only whitespace character and no Unicode line or paragraph
  separator (U+2028, U+2029, three bytes each) occurs; and every token with a brace in it
  is a marker.
\<close>

fun plain :: "string \<Rightarrow> bool" where
  "plain [] = True"
| "plain (c # cs) =
     ((spec_whitespace c \<longrightarrow> c = CHR '' '') \<and>
      \<not> (c = CHR 0xE2 \<and> (take 2 cs = [CHR 0x80, CHR 0xA8] \<or> take 2 cs = [CHR 0x80, CHR 0xA9])) \<and>
      plain cs)"

definition whole_markers :: "string \<Rightarrow> bool" where
  "whole_markers s = (\<forall>t \<in> set (spec_tokens s). has_brace t \<longrightarrow> spec_marker t \<noteq> None)"

text \<open>Two markers separated by a tab.\<close>

definition tab_markers :: string where
  "tab_markers = ''{{a}}'' @ [CHR 0x09] @ ''{{b}}''"

fun no_adjacent_text :: "cue_item list \<Rightarrow> bool" where
  "no_adjacent_text (x # y # zs) = (\<not> (is_text x \<and> is_text y) \<and> no_adjacent_text (y # zs))"
| "no_adjacent_text zs = True"

text \<open>The stages the specification puts between source and output, and the edges of
  a linear path.\<close>

definition graph_stages :: "real \<Rightarrow> real \<Rightarrow> audio_node list" where
  "graph_stages v p =
     (if v \<noteq> 1 then [GainNode v] else []) @ (if p \<noteq> 0 then [StereoPannerNode p] else [])"

definition chain :: "node_ref list \<Rightarrow> (node_ref \<times> node_ref) list" where
  "chain path = zip path (tl path)"

text \<open>
  The rule of the Web Audio API for \<^verbatim>\<open>start(when)\<close> on a source node: the sound begins
  when the clock of the context reads \<open>when\<close>, and at once if the clock already reads
  more. \<open>when\<close> is a time on that clock, not a delay.
\<close>

definition begins_at :: "real \<Rightarrow> real \<Rightarrow> real" where
  "begins_at now when = max now when"

text \<open>The error with which \<^verbatim>\<open>play\<close> fails on a name, if it does.\<close>

definition play_failure :: "world \<Rightarrow> string \<Rightarrow> js_error option" where
  "play_failure w name =
     (case library_lookup w name of
        None \<Rightarrow> Some (Error (''Sound '' @ name @ '' not found''))
      | Some GetterThrows \<Rightarrow> Some (TypeError ''Illegal invocation'')
      | Some OtherValue \<Rightarrow> Some (TypeError ''The provided value is not of type AudioBuffer'')
      | Some (BufferValue b) \<Rightarrow> None)"

definition all_playing :: "world \<Rightarrow> bool" where
  "all_playing w = (\<forall>e \<in> set (loops w). isPlaying e)"

text \<open>Sample states used to exercise the theorems.\<close>

definition win_world :: world where
  "win_world = addSound ''win'' 7 (new_AudioManager [])"

text \<open>The same manager ten seconds later.\<close>

definition late_world :: world where
  "late_world = run [Tick 10000] win_world"

definition loop_events :: "event list" where
  "loop_events =
     [Call_addSound ''a'' 1, Call_addSound ''b'' 2, Call_play ''a'' None 1 0 True 0,
      Call_play ''a'' None 1 0 True 0, Call_play ''b'' None 1 0 True 0]"

definition loop_world :: world where
  "loop_world = run loop_events (new_AudioManager [])"

subsection \<open>Observing one cue queue\<close>

text \<open>The entries of the observation log that belong to sequence \<open>q\<close>.\<close>

fun entry_seq :: "trace_entry \<Rightarrow> nat" where
  "entry_seq (Invoked q it t) = q"
| "entry_seq (Finished q t) = q"

definition proj :: "nat \<Rightarrow> trace_entry list \<Rightarrow> trace_entry list" where
  "proj q h = filter (\<lambda>e. entry_seq e = q) h"

text \<open>
  What the ordering guarantee says of the log of one queue with items \<open>its\<close> and spacing
  \<open>sp\<close>: the entries alternate between an invocation and the completion of that
  invocation; the invoked items are \<open>its\<close> from the front, none skipped; a completion is
  not earlier than its invocation; and an invocation after a completion at time \<open>c\<close> is
  not earlier than \<open>c + sp\<close>. \<open>observe\<close> reads the log from the left and gives up
  (\<open>None\<close>) at the first entry that breaks this.
\<close>

datatype phase = Idle | InFlight nat | Gap nat

fun advance ::
  "nat \<Rightarrow> (phase \<times> cue_item list) option \<Rightarrow> trace_entry \<Rightarrow> (phase \<times> cue_item list) option"
  where
  "advance sp (Some (Idle, it # its)) (Invoked q x t) =
     (if x = it then Some (InFlight t, its) else None)"
| "advance sp (Some (Gap c, it # its)) (Invoked q x t) =
     (if x = it \<and> c + sp \<le> t then Some (InFlight t, its) else None)"
| "advance sp (Some (InFlight t, its)) (Finished q c) =
     (if t \<le> c then Some (Gap c, its) else None)"
| "advance sp st e = None"

definition observe ::
  "nat \<Rightarrow> cue_item list \<Rightarrow> trace_entry list \<Rightarrow> (phase \<times> cue_item list) option" where
  "observe sp its tr = foldl (advance sp) (Some (Idle, its)) tr"

definition in_order :: "nat \<Rightarrow> cue_item list \<Rightarrow> trace_entry list \<Rightarrow> bool" where
  "in_order sp its tr = (observe sp its tr \<noteq> None)"

text \<open>The items handed to \<^verbatim>\<open>speak\<close> or \<^verbatim>\<open>play\<close> by sequence \<open>q\<close>, in order.\<close>

fun dispatched_entry :: "nat \<Rightarrow> trace_entry \<Rightarrow> cue_item list" where
  "dispatched_entry q (Invoked q' it t) = (if q' = q then [it] else [])"
| "dispatched_entry q (Finished q' t) = []"

definition dispatched :: "nat \<Rightarrow> trace_entry list \<Rightarrow> cue_item list" where
  "dispatched q h = concat (map (dispatched_entry q) h)"

subsection \<open>The invariant behind the ordering guarantee\<close>

text \<open>
  The completion callbacks and the timers of sequence \<open>q\<close> that the browser still holds.
\<close>

definition npend :: "nat \<Rightarrow> world \<Rightarrow> nat" where
  "npend q w = length (filter (\<lambda>cb. cb = SequenceCallback q) (pending w))"

definition ntim :: "nat \<Rightarrow> world \<Rightarrow> (nat \<times> nat) list" where
  "ntim q w = filter (\<lambda>t. snd t = q) (timers w)"

text \<open>
  A sequence is \<open>dead\<close> when nothing of it is left to fire. Otherwise it has either one
  utterance or sound in flight and no timer, or one timer (due one spacing after the last
  completion) and nothing in flight; unless it was cancelled, its array then holds
  exactly the items not yet dispatched.
\<close>

definition dead :: "nat \<Rightarrow> world \<Rightarrow> bool" where
  "dead q w = (npend q w = 0 \<and> ntim q w = [])"

fun live :: "phase \<Rightarrow> cue_item list \<Rightarrow> nat \<Rightarrow> nat \<Rightarrow> world \<Rightarrow> bool" where
  "live Idle rest sp q w = False"
| "live (InFlight t) rest sp q w =
     (npend q w = 1 \<and> ntim q w = [] \<and> t \<le> clock w \<and>
      ((\<not> seq_isPlaying (sequences w ! q) \<and> seq_queue (sequences w ! q) = []) \<or>
       (seq_isPlaying (sequences w ! q) \<and> seq_queue (sequences w ! q) = rest)))"
| "live (Gap c) rest sp q w =
     (npend q w = 0 \<and> ntim q w = [(c + sp, q)] \<and>
      (\<not> seq_isPlaying (sequences w ! q) \<or>
       (seq_queue (sequences w ! q) = rest \<and> rest \<noteq> [])))"

definition tracked :: "nat \<Rightarrow> cue_item list \<Rightarrow> nat \<Rightarrow> world \<Rightarrow> bool" where
  "tracked sp its q w =
     (q < length (sequences w) \<and> spacing (sequences w ! q) = sp \<and>
      (case observe sp its (proj q (history w)) of
         None \<Rightarrow> False
       | Some (ph, rest) \<Rightarrow> dead q w \<or> live ph rest sp q w))"

text \<open>A reference that no sequence has yet, and the states in which every such
  reference is unused.\<close>

definition unborn :: "nat \<Rightarrow> world \<Rightarrow> bool" where
  "unborn q w =
     (length (sequences w) \<le> q \<and> npend q w = 0 \<and> ntim q w = [] \<and> proj q (history w) = [])"

definition wf_world :: "world \<Rightarrow> bool" where
  "wf_world w = (\<forall>q. length (sequences w) \<le> q \<longrightarrow> unborn q w)"

text \<open>States that look the same from sequence \<open>q\<close>.\<close>

definition same_view :: "nat \<Rightarrow> world \<Rightarrow> world \<Rightarrow> bool" where
  "same_view q w w' =
     (npend q w' = npend q w \<and> ntim q w' = ntim q w \<and>
      proj q (history w') = proj q (history w) \<and>
      length (sequences w) \<le> length (sequences w') \<and>
      (q < length (sequences w) \<longrightarrow> sequences w' ! q = sequences w ! q) \<and>
      clock w \<le> clock w')"

text \<open>The state in \<^verbatim>\<open>speakWithSoundEffects\<close> when \<^verbatim>\<open>start\<close> reaches
  \<^verbatim>\<open>doNext\<close>: the new sequence holds the parsed items and is playing.\<close>

definition born :: "string \<Rightarrow> string option \<Rightarrow> world \<Rightarrow> world" where
  "born txt vp w =
     w\<lparr>sequences := sequences w @
         [\<lparr>seq_queue = parse_cues txt vp, spacing = 100, playing = False,
           currentItem = None, seq_isPlaying = True\<rparr>]\<rparr>"

definition cancelled :: "nat \<Rightarrow> world \<Rightarrow> bool" where
  "cancelled q w = (q < length (sequences w) \<and> \<not> seq_isPlaying (sequences w ! q))"

subsection \<open>Sample runs\<close>

definition win_call :: event where
  "win_call = Call_speakWithSoundEffects ''You win {{win}} great job'' None"

definition win_schedule :: "event list" where
  "win_schedule = [CallbackFires 0, Tick 100, TimerFires 0, CallbackFires 0, Tick 100,
                   TimerFires 0, CallbackFires 0]"

definition b_world :: world where
  "b_world = addSound ''b'' 3 (new_AudioManager [])"

definition overlap_prefix :: "event list" where
  "overlap_prefix =
     [Call_addSound ''win'' 7, Call_speakWithSoundEffects ''x {{win}}'' None,
      Call_speakWithSoundEffects ''y'' None]"

definition overlap_events :: "event list" where
  "overlap_events = overlap_prefix @ [CallbackFires 0, Tick 100, TimerFires 0]"

definition cancel_events :: "event list" where
  "cancel_events =
     [Call_addSound ''win'' 7, Call_speakWithSoundEffects ''x {{win}}'' None,
      CallbackFires 0, Call_cancel 0, Tick 100, TimerFires 0]"


section \<open>Properties of the parser\<close>

lemma parse_tokens_append:
  "parse_tokens vp ts buf q = q @ parse_tokens vp ts buf []"
proof (induction ts arbitrary: buf q)
  case Nil
  show ?case by (simp add: flush_buffer_def add_def)
next
  case (Cons t ts)
  show ?case
  proof (cases "match_marker t")
    case None
    then show ?thesis using Cons.IH [of "buf @ '' '' @ t" q] by simp
  next
    case (Some nm)
    have "parse_tokens vp (t # ts) buf q
            = add nm ''sound'' None (flush_buffer vp buf q) @ parse_tokens vp ts [] []"
      using Some Cons.IH [of "[]" "add nm ''sound'' None (flush_buffer vp buf q)"] by simp
    moreover have "parse_tokens vp (t # ts) buf []
            = add nm ''sound'' None (flush_buffer vp buf []) @ parse_tokens vp ts [] []"
      using Some Cons.IH [of "[]" "add nm ''sound'' None (flush_buffer vp buf [])"] by simp
    ultimately show ?thesis by (simp add: flush_buffer_def add_def)
  qed
qed

lemma parse_tokens_marker:
  "match_marker t = Some nm \<Longrightarrow>
   parse_tokens vp (t # ts) buf [] =
     flush_buffer vp buf [] @ \<lparr>item = nm, mediaType = ''sound'', prefs = None\<rparr>
       # parse_tokens vp ts [] []"
  using parse_tokens_append [of vp ts "[]" "add nm ''sound'' None (flush_buffer vp buf [])"]
  by (simp add: add_def)

lemma parse_tokens_plain:
  "match_marker t = None \<Longrightarrow>
   parse_tokens vp (t # ts) buf [] = parse_tokens vp ts (buf @ '' '' @ t) []"
  by simp

declare parse_tokens.simps(2) [simp del]

lemma flush_buffer_cases:
  "flush_buffer vp buf [] = [] \<or>
   (buf \<noteq> [] \<and> flush_buffer vp buf [] = [\<lparr>item = buf, mediaType = ''text'', prefs = Some vp\<rparr>])"
  by (simp add: flush_buffer_def add_def)

lemma sounds_of_parse_tokens:
  "map item (filter is_sound (parse_tokens vp ts buf [])) = List.map_filter match_marker ts"
proof (induction ts arbitrary: buf)
  case Nil
  show ?case using flush_buffer_cases [of vp buf]
    by (auto simp: is_sound_def)
next
  case (Cons t ts)
  show ?case
  proof (cases "match_marker t")
    case None
    then show ?thesis using Cons.IH by (simp add: parse_tokens_plain)
  next
    case (Some nm)
    then show ?thesis using Cons.IH [of "[]"] flush_buffer_cases [of vp buf]
      by (auto simp: parse_tokens_marker is_sound_def)
  qed
qed

lemma texts_of_parse_tokens:
  "length (filter is_text (parse_tokens vp ts buf []))
     \<le> length (List.map_filter match_marker ts) + 1"
proof (induction ts arbitrary: buf)
  case Nil
  show ?case using flush_buffer_cases [of vp buf]
    by (auto simp: is_text_def)
next
  case (Cons t ts)
  show ?case
  proof (cases "match_marker t")
    case None
    then show ?thesis using Cons.IH by (simp add: parse_tokens_plain)
  next
    case (Some nm)
    then show ?thesis using Cons.IH [of "[]"] flush_buffer_cases [of vp buf]
      by (auto simp: parse_tokens_marker is_text_def)
  qed
qed

lemma kinds_of_parse_tokens:
  "it \<in> set (parse_tokens vp ts buf []) \<Longrightarrow>
   (is_sound it \<and> prefs it = None) \<or> (is_text it \<and> item it \<noteq> [] \<and> prefs it = Some vp)"
proof (induction ts arbitrary: buf)
  case Nil
  then show ?case using flush_buffer_cases [of vp buf]
    by (auto simp: is_text_def)
next
  case (Cons t ts)
  show ?case
  proof (cases "match_marker t")
    case None
    then show ?thesis using Cons.IH Cons.prems by (simp add: parse_tokens_plain)
  next
    case (Some nm)
    then show ?thesis using Cons.IH [of "[]"] Cons.prems flush_buffer_cases [of vp buf]
      by (auto simp: parse_tokens_marker is_text_def is_sound_def)
  qed
qed

lemma no_adjacent_text_sound:
  "is_sound x \<Longrightarrow> no_adjacent_text (x # zs) = no_adjacent_text zs"
  by (cases zs) (auto simp: is_sound_def is_text_def)

lemma adjacent_of_parse_tokens:
  "no_adjacent_text (parse_tokens vp ts buf [])"
proof (induction ts arbitrary: buf)
  case Nil
  show ?case using flush_buffer_cases [of vp buf] by auto
next
  case (Cons t ts)
  show ?case
  proof (cases "match_marker t")
    case None
    then show ?thesis using Cons.IH by (simp add: parse_tokens_plain)
  next
    case (Some nm)
    have s: "is_sound \<lparr>item = nm, mediaType = ''sound'', prefs = None\<rparr>"
      by (simp add: is_sound_def)
    show ?thesis using Some Cons.IH [of "[]"] flush_buffer_cases [of vp buf]
      by (auto simp: parse_tokens_marker no_adjacent_text_sound [OF s] is_text_def)
  qed
qed

lemma parse_tokens_nonempty: "parse_tokens vp (t # ts) buf [] \<noteq> []"
proof (induction ts arbitrary: t buf)
  case Nil
  show ?case
    by (cases "match_marker t")
       (auto simp: parse_tokens_marker parse_tokens_plain flush_buffer_def add_def)
next
  case (Cons u us)
  show ?case
  proof (cases "match_marker t")
    case None
    then show ?thesis using Cons.IH [of u "buf @ '' '' @ t"] by (simp add: parse_tokens_plain)
  next
    case (Some nm)
    then show ?thesis by (simp add: parse_tokens_marker)
  qed
qed

lemma split_on_space_nonempty: "split_on_space acc s \<noteq> []"
  by (induction s arbitrary: acc) auto

lemma parse_cues_nonempty: "parse_cues s vp \<noteq> []"
proof -
  obtain t ts where "split_space s = t # ts"
    using split_on_space_nonempty [of "[]" s]
    by (cases "split_space s") (auto simp: split_space_def)
  then show ?thesis by (simp add: parse_cues_def parse_tokens_nonempty)
qed

lemma parse_cues_kinds:
  "it \<in> set (parse_cues s vp) \<Longrightarrow>
   (is_sound it \<and> prefs it = None) \<or> (is_text it \<and> item it \<noteq> [] \<and> prefs it = Some vp)"
  unfolding parse_cues_def by (rule kinds_of_parse_tokens)

subsection \<open>The parser's markers and the specification's\<close>

lemma plain_spaces: "plain s \<Longrightarrow> c \<in> set s \<Longrightarrow> spec_whitespace c \<Longrightarrow> c = CHR '' ''"
  by (induction s) auto

lemma plain_no_line_terminator: "plain s \<Longrightarrow> \<not> line_terminator_at s"
  by (cases s) (auto simp: spec_whitespace_def)

lemma plain_append_right: "plain (xs @ ys) \<Longrightarrow> plain ys"
  by (induction xs) auto

lemma plain_append_left: "plain (xs @ ys) \<Longrightarrow> plain xs"
proof (induction xs)
  case Nil
  show ?case by simp
next
  case (Cons c cs)
  have "take 2 (cs @ ys) = take 2 cs" if "length (take 2 cs) = 2"
    using that by (cases cs; cases "tl cs") auto
  then have "\<not> (c = CHR 0xE2 \<and>
      (take 2 cs = [CHR 0x80, CHR 0xA8] \<or> take 2 cs = [CHR 0x80, CHR 0xA9]))"
    using Cons.prems by auto
  then show ?case using Cons by simp
qed

lemma spec_split_spaces:
  "(\<And>c. c \<in> set s \<Longrightarrow> spec_whitespace c \<Longrightarrow> c = CHR '' '') \<Longrightarrow>
   spec_split acc s = filter (\<lambda>t. t \<noteq> []) (split_on_space acc s)"
proof (induction s arbitrary: acc)
  case Nil
  show ?case by simp
next
  case (Cons c cs)
  have ih: "spec_split a cs = filter (\<lambda>t. t \<noteq> []) (split_on_space a cs)" for a
    using Cons.prems by (intro Cons.IH) simp_all
  show ?case
  proof (cases "c = CHR '' ''")
    case True
    then show ?thesis by (simp add: ih spec_whitespace_def)
  next
    case False
    then have "\<not> spec_whitespace c" using Cons.prems [of c] by auto
    then show ?thesis using False by (simp add: ih)
  qed
qed

lemma split_on_space_plain:
  "plain (acc @ s) \<Longrightarrow> t \<in> set (split_on_space acc s) \<Longrightarrow> plain t"
proof (induction s arbitrary: acc)
  case Nil
  then show ?case by simp
next
  case (Cons c cs)
  show ?case
  proof (cases "c = CHR '' ''")
    case True
    have a: "plain acc" using Cons.prems(1) by (rule plain_append_left)
    have "plain (c # cs)" using Cons.prems(1) by (rule plain_append_right)
    then have "plain ([] @ cs)" by simp
    then have b: "t \<in> set (split_on_space [] cs) \<Longrightarrow> plain t" by (rule Cons.IH)
    show ?thesis using Cons.prems(2) True a b by auto
  next
    case False
    have "plain ((acc @ [c]) @ cs)" using Cons.prems(1) by simp
    then have "t \<in> set (split_on_space (acc @ [c]) cs) \<Longrightarrow> plain t" by (rule Cons.IH)
    then show ?thesis using Cons.prems(2) False by simp
  qed
qed

lemma capture_to_close_plain:
  "plain (nm @ ''}}'') \<Longrightarrow> capture_to_close (nm @ ''}}'') = Some nm"
proof (induction nm)
  case Nil
  show ?case by simp
next
  case (Cons c cs)
  have "\<not> line_terminator_at (c # cs @ ''}}'')"
    using plain_no_line_terminator [OF Cons.prems] by simp
  moreover have "capture_to_close (cs @ ''}}'') = Some cs"
    using Cons.prems by (intro Cons.IH) simp
  ultimately show ?case by simp
qed

lemma spec_marker_shape:
  assumes "spec_marker t = Some nm"
  shows "t = ''{{'' @ nm @ ''}}''"
proof -
  from assms have l: "4 \<le> length t" and a: "take 2 t = ''{{''"
    and b: "drop (length t - 2) t = ''}}''" and n: "nm = take (length t - 4) (drop 2 t)"
    by (auto simp: spec_marker_def split: if_splits)
  have "length t - 4 + 2 = length t - 2" using l by arith
  then have "drop (length t - 4) (drop 2 t) = drop (length t - 2) t"
    by (simp only: drop_drop)
  then have "drop 2 t = nm @ ''}}''"
    using append_take_drop_id [of "length t - 4" "drop 2 t"] b n by simp
  then show ?thesis
    using append_take_drop_id [of 2 t] a by simp
qed

lemma match_marker_of_spec_marker:
  assumes "plain t" and "spec_marker t = Some nm"
  shows "match_marker t = Some nm"
proof -
  have t: "t = ''{{'' @ nm @ ''}}''" using assms(2) by (rule spec_marker_shape)
  then have "plain (''{{'' @ nm @ ''}}'')" using assms(1) by simp
  then have "plain (nm @ ''}}'')" by (rule plain_append_right)
  then have "capture_to_close (nm @ ''}}'') = Some nm" by (rule capture_to_close_plain)
  then show ?thesis by (simp add: t)
qed

lemma match_marker_no_brace: "\<not> has_brace t \<Longrightarrow> match_marker t = None"
  by (induction t) (auto simp: has_brace_def)

lemma map_filter_skip_empty:
  "f [] = None \<Longrightarrow> List.map_filter f xs = List.map_filter f (filter (\<lambda>t. t \<noteq> []) xs)"
  by (induction xs) (auto simp: List.map_filter_simps split: option.splits)

lemma map_filter_agree:
  "(\<And>x. x \<in> set xs \<Longrightarrow> f x = g x) \<Longrightarrow> List.map_filter f xs = List.map_filter g xs"
  by (induction xs) (auto simp: List.map_filter_simps split: option.splits)

lemma parser_markers_are_spec_markers:
  assumes p: "plain s" and w: "whole_markers s"
  shows "List.map_filter match_marker (split_space s) = spec_marker_names s"
proof -
  have tok: "spec_tokens s = filter (\<lambda>t. t \<noteq> []) (split_space s)"
    unfolding spec_tokens_def split_space_def
    using plain_spaces [OF p] by (intro spec_split_spaces) blast
  have "match_marker t = spec_marker t" if t: "t \<in> set (spec_tokens s)" for t
  proof -
    have "t \<in> set (split_on_space [] s)" using t by (simp add: tok split_space_def)
    then have pt: "plain t" using p split_on_space_plain [of "[]" s t] by simp
    show ?thesis
    proof (cases "spec_marker t")
      case None
      then have "\<not> has_brace t" using w t by (auto simp: whole_markers_def)
      then show ?thesis using None by (simp add: match_marker_no_brace)
    next
      case (Some nm)
      then show ?thesis using match_marker_of_spec_marker [OF pt] by simp
    qed
  qed
  then have "List.map_filter match_marker (spec_tokens s) = spec_marker_names s"
    unfolding spec_marker_names_def by (intro map_filter_agree)
  moreover have "List.map_filter match_marker (split_space s)
      = List.map_filter match_marker (spec_tokens s)"
    unfolding tok by (rule map_filter_skip_empty) simp
  ultimately show ?thesis by simp
qed

text \<open>
  Claim C3, as stated, fails, because the parser splits at single spaces only and looks
  for the pattern anywhere in a token. Two markers separated by a tab are two cue markers,
  but the parser enqueues one sound, named by everything between the first opening and
  the last closing braces; and \<^verbatim>\<open>a{{b}}c\<close> holds no marker, but the parser enqueues the
  sound \<^verbatim>\<open>b\<close>.
\<close>

theorem cue_marker_count_counterexample:
  "spec_marker_names tab_markers = [''a'', ''b''] \<and>
   map item (filter is_sound (parse_cues tab_markers None))
     = [''a}}'' @ [CHR 0x09] @ ''{{b''] \<and>
   spec_marker_names ''a{{b}}c'' = [] \<and>
   map item (filter is_sound (parse_cues ''a{{b}}c'' None)) = [''b'']"
  by code_simp

text \<open>
  Claim C3, amended. For every narration string in which the space is the only whitespace
  character (no tab, line feed, vertical tab, form feed or carriage return), no Unicode
  line or paragraph separator occurs, and every
  whitespace-delimited token with a brace in it is a whole marker \<^verbatim>\<open>{{name}}\<close> (no brace
  in the name): if it contains \<open>n\<close> cue markers, the parser enqueues exactly \<open>n\<close> sound
  items, whose names are the markers' names in left-to-right order, and at most
  \<open>n + 1\<close> text items. For every narration string whatever: the text items are at most
  one more than the sound items, every item is a sound or a text of non-zero length, and
  no two text items are adjacent.
\<close>

theorem parse_cues_matches_spec_markers:
  "(plain s \<and> whole_markers s \<longrightarrow>
      map item (filter is_sound (parse_cues s vp)) = spec_marker_names s \<and>
      length (filter is_sound (parse_cues s vp)) = length (spec_marker_names s) \<and>
      length (filter is_text (parse_cues s vp)) \<le> length (spec_marker_names s) + 1) \<and>
   length (filter is_text (parse_cues s vp)) \<le> length (filter is_sound (parse_cues s vp)) + 1 \<and>
   (\<forall>it \<in> set (parse_cues s vp). is_sound it \<or> (is_text it \<and> item it \<noteq> [])) \<and>
   no_adjacent_text (parse_cues s vp)"
proof -
  have a: "map item (filter is_sound (parse_cues s vp))
             = List.map_filter match_marker (split_space s)"
    by (simp add: parse_cues_def sounds_of_parse_tokens)
  have b: "length (filter is_sound (parse_cues s vp))
             = length (List.map_filter match_marker (split_space s))"
    using arg_cong [OF a, of length] by simp
  have c: "length (filter is_text (parse_cues s vp))
             \<le> length (filter is_sound (parse_cues s vp)) + 1"
    using texts_of_parse_tokens [of vp "split_space s" "[]"] b
    by (simp add: parse_cues_def)
  have d: "\<forall>it \<in> set (parse_cues s vp). is_sound it \<or> (is_text it \<and> item it \<noteq> [])"
    using parse_cues_kinds [of _ s vp] by auto
  have e: "no_adjacent_text (parse_cues s vp)"
    by (simp add: parse_cues_def adjacent_of_parse_tokens)
  have f: "map item (filter is_sound (parse_cues s vp)) = spec_marker_names s \<and>
      length (filter is_sound (parse_cues s vp)) = length (spec_marker_names s) \<and>
      length (filter is_text (parse_cues s vp)) \<le> length (spec_marker_names s) + 1"
    if "plain s \<and> whole_markers s"
    using parser_markers_are_spec_markers [of s] that a b c by simp
  from c d e f show ?thesis by blast
qed

theorem parse_cues_matches_spec_markers_witness:
  "plain ''You win {{win}} great job'' \<and> whole_markers ''You win {{win}} great job'' \<and>
   spec_marker_names ''You win {{win}} great job'' = [''win''] \<and>
   map item (filter is_sound (parse_cues ''You win {{win}} great job'' None)) = [''win''] \<and>
   length (filter is_sound (parse_cues ''You win {{win}} great job'' None)) = 1 \<and>
   length (filter is_text (parse_cues ''You win {{win}} great job'' None)) \<le> 2 \<and>
   no_adjacent_text (parse_cues ''You win {{win}} great job'' None)"
proof -
  have h: "plain ''You win {{win}} great job'' \<and> whole_markers ''You win {{win}} great job''"
    by code_simp
  have n: "spec_marker_names ''You win {{win}} great job'' = [''win'']"
    by code_simp
  show ?thesis
    using h n parse_cues_matches_spec_markers [of "''You win {{win}} great job''" None]
    by simp
qed

section \<open>Properties of play and stopLoop\<close>

lemma library_lookup_own:
  "soundLibrary w name = Some b \<Longrightarrow> library_lookup w name = Some (BufferValue b)"
  by (simp add: library_lookup_def)

lemma play_registered:
  assumes "soundLibrary w name = Some buf"
  shows "fst (play name opts w) = Inr (length (nodes (ctx w)))"
    and "nodes (ctx (snd (play name opts w))) =
           nodes (ctx w) @ AudioBufferSourceNode buf (loop opts) (callback opts)
             # graph_stages (volume opts) (panValue opts)"
    and "connections (ctx (snd (play name opts w))) =
           connections (ctx w) @
           chain (map (\<lambda>k. NodeRef (length (nodes (ctx w)) + k))
                        [0 ..< Suc (length (graph_stages (volume opts) (panValue opts)))]
                  @ [ContextDestination])"
    and "started (ctx (snd (play name opts w))) =
           started (ctx w) @ [(length (nodes (ctx w)), offset opts)]"
    and "stopped (ctx (snd (play name opts w))) = stopped (ctx w)"
    and "currentTime (ctx (snd (play name opts w))) = currentTime (ctx w)"
  using library_lookup_own [OF assms]
  by (simp_all add: play_def create_node_def add_volume_def add_panner_def connect_def
        graph_stages_def chain_def Let_def split: prod.splits)

lemma play_frame:
  "soundLibrary (snd (play name opts w)) = soundLibrary w"
  "sequences (snd (play name opts w)) = sequences w"
  "timers (snd (play name opts w)) = timers w"
  "clock (snd (play name opts w)) = clock w"
  "history (snd (play name opts w)) = history w"
  "errors (snd (play name opts w)) = errors w"
  "current_queue (snd (play name opts w)) = current_queue w"
  "utterances (snd (play name opts w)) = utterances w"
  "voices (snd (play name opts w)) = voices w"
  "initialized (snd (play name opts w)) = initialized w"
  "library_prototype (snd (play name opts w)) = library_prototype w"
  by (simp_all add: play_def create_node_def add_volume_def add_panner_def connect_def
        Let_def split: prod.splits option.splits property_value.splits)

lemma play_pending:
  "pending (snd (play name opts w)) =
     pending w @ (case fst (play name opts w) of
                    Inl e \<Rightarrow> []
                  | Inr h \<Rightarrow> (case callback opts of None \<Rightarrow> [] | Some cb \<Rightarrow> [cb]))"
  by (simp add: play_def create_node_def add_volume_def add_panner_def connect_def
        Let_def split: prod.splits option.splits property_value.splits)

lemma play_loops:
  "loops (snd (play name opts w)) =
     loops w @ (case fst (play name opts w) of
                  Inl e \<Rightarrow> []
                | Inr h \<Rightarrow> (if loop opts
                            then [\<lparr>soundName = name, loopHandle = h, isPlaying = True\<rparr>]
                            else []))"
  by (simp add: play_def create_node_def add_volume_def add_panner_def connect_def
        Let_def split: prod.splits option.splits property_value.splits)

lemma play_events:
  "events (snd (play name opts w)) =
     events w @ (case fst (play name opts w) of
                  Inl e \<Rightarrow> []
                | Inr h \<Rightarrow> [SoundEffectEvent name (panValue opts) (volume opts) (loop opts)])"
  by (simp add: play_def create_node_def add_volume_def add_panner_def connect_def
        Let_def split: prod.splits option.splits property_value.splits)

lemma play_result:
  "fst (play name opts w) =
     (case play_failure w name of Some e \<Rightarrow> Inl e | None \<Rightarrow> Inr (length (nodes (ctx w))))"
  by (simp add: play_def play_failure_def create_node_def add_volume_def add_panner_def
        connect_def Let_def split: prod.splits option.splits property_value.splits)

lemma play_failure_frame:
  assumes "soundLibrary w' = soundLibrary w" and "library_prototype w' = library_prototype w"
  shows "play_failure w' name = play_failure w name"
  unfolding play_failure_def library_lookup_def assms ..

lemma play_failed:
  "isl (fst (play name opts w)) \<Longrightarrow>
   events (snd (play name opts w)) = events w \<and>
   pending (snd (play name opts w)) = pending w \<and>
   loops (snd (play name opts w)) = loops w \<and>
   started (ctx (snd (play name opts w))) = started (ctx w) \<and>
   connections (ctx (snd (play name opts w))) = connections (ctx w)"
  by (simp add: play_def create_node_def add_volume_def add_panner_def
        connect_def Let_def split: prod.splits option.splits property_value.splits)

lemma play_missing_property:
  "library_lookup w name = None \<Longrightarrow>
   play name opts w = (Inl (Error (''Sound '' @ name @ '' not found'')), w)"
  by (simp add: play_def)

lemma stopLoop_loops:
  "loops (stopLoop name w) = filter (\<lambda>e. isPlaying e \<and> soundName e \<noteq> name) (loops w)"
proof -
  have "filter isPlaying (stopLoop_mark name ls)
          = filter (\<lambda>e. isPlaying e \<and> soundName e \<noteq> name) ls" for ls
    by (induction ls) (auto simp: stopLoop_mark_def stopLoop_hit_def)
  then show ?thesis by (simp add: stopLoop_def)
qed

lemma stopLoop_stopped:
  "stopped (ctx (stopLoop name w)) =
     stopped (ctx w) @ map loopHandle (filter (stopLoop_hit name) (loops w))"
  by (simp add: stopLoop_def stopLoop_handles_def)

lemma stopLoop_mark_flags:
  assumes "e \<in> set (stopLoop_mark name ls)" and "soundName e = name"
  shows "\<not> isPlaying e"
proof -
  have "e \<in> (\<lambda>it. if stopLoop_hit name it then it\<lparr>isPlaying := False\<rparr> else it) ` set ls"
    using assms(1) unfolding stopLoop_mark_def set_map .
  then obtain x where x: "e = (if stopLoop_hit name x then x\<lparr>isPlaying := False\<rparr> else x)"
    by (rule imageE)
  show ?thesis
  proof (cases "stopLoop_hit name x")
    case True
    then show ?thesis using x by simp
  next
    case False
    then have "e = x" using x by simp
    then show ?thesis using False assms(2) by (simp add: stopLoop_hit_def)
  qed
qed

lemma stopLoop_noop:
  assumes "\<forall>e \<in> set (loops w). isPlaying e \<and> soundName e \<noteq> name"
  shows "stopLoop name w = w"
proof -
  have a: "filter (stopLoop_hit name) (loops w) = []"
    using assms by (auto simp: filter_empty_conv stopLoop_hit_def)
  have b: "stopLoop_mark name (loops w) = loops w"
    using assms by (auto simp: stopLoop_mark_def stopLoop_hit_def intro: map_idI)
  have c: "filter isPlaying (loops w) = loops w"
    using assms by (auto simp: filter_id_conv)
  show ?thesis by (simp add: stopLoop_def stopLoop_handles_def a b c)
qed

lemma stopLoop_idem: "stopLoop name (stopLoop name w) = stopLoop name w"
  by (rule stopLoop_noop) (simp add: stopLoop_loops)

lemma loop_world_loops:
  "loops loop_world =
     [\<lparr>soundName = ''a'', loopHandle = 0, isPlaying = True\<rparr>,
      \<lparr>soundName = ''a'', loopHandle = 1, isPlaying = True\<rparr>,
      \<lparr>soundName = ''b'', loopHandle = 2, isPlaying = True\<rparr>]"
  by (simp add: loop_world_def loop_events_def new_AudioManager_def new_AudioContext_def
        addSound_def raised_def play_loops play_result play_frame play_registered
        graph_stages_def play_failure_def library_lookup_def)

lemma loop_world_stopped: "stopped (ctx loop_world) = []"
  by (simp add: loop_world_def loop_events_def new_AudioManager_def new_AudioContext_def
        addSound_def raised_def play_loops play_result play_frame play_registered
        graph_stages_def play_failure_def library_lookup_def)

lemma late_world_time: "getTime late_world = 10"
  by (simp add: late_world_def win_world_def time_passes_def addSound_def getTime_def
        new_AudioManager_def new_AudioContext_def)

lemma late_world_facts:
  "soundLibrary late_world ''win'' = Some 7" "nodes (ctx late_world) = []"
  "started (ctx late_world) = []"
  by (simp_all add: late_world_def win_world_def time_passes_def addSound_def
        new_AudioManager_def new_AudioContext_def)

text \<open>
  Claim C2, the failing input. \<^verbatim>\<open>play("toString")\<close> on a fresh manager: the name is
  not registered, but \<^verbatim>\<open>"toString" in this.soundLibrary\<close> holds, since the library is
  a plain object. \<^verbatim>\<open>play\<close> creates a source node and then fails with a TypeError
  when it assigns the inherited function as the buffer, not with the not-found error.
  Nothing is connected or started and no event is dispatched.
\<close>

theorem play_inherited_name_creates_node:
  "soundLibrary (new_AudioManager []) ''toString'' = None \<and>
   play ''toString'' default_options (new_AudioManager []) =
     (Inl (TypeError ''The provided value is not of type AudioBuffer''),
      (new_AudioManager [])\<lparr>ctx := new_AudioContext\<lparr>nodes := [UnsetBufferSourceNode]\<rparr>\<rparr>) \<and>
   events (snd (play ''toString'' default_options (new_AudioManager []))) = [] \<and>
   started (ctx (snd (play ''toString'' default_options (new_AudioManager [])))) = []"
  by (simp add: play_def library_lookup_def object_prototype_names_def create_node_def
        new_AudioManager_def new_AudioContext_def)

theorem play_inherited_name_creates_node_witness:
  "fst (play ''toString'' default_options (new_AudioManager []))
     \<noteq> Inl (Error ''Sound toString not found'') \<and>
   nodes (ctx (snd (play ''toString'' default_options (new_AudioManager []))))
     = [UnsetBufferSourceNode]"
  using play_inherited_name_creates_node by (simp add: new_AudioContext_def)

text \<open>
  Claim C8, as stated, fails in its last part: \<^verbatim>\<open>play\<close> passes the offset to
  \<^verbatim>\<open>start\<close> unchanged, as a time on the clock of the context and not as a delay from
  \<^verbatim>\<open>now()\<close>. With the clock at 10 s, an offset of 5 starts the sound at once, at 10 s
  and not at 15 s.
\<close>

theorem play_start_counterexample:
  "getTime late_world = 10 \<and>
   started (ctx (snd (play ''win'' (default_options\<lparr>offset := 5\<rparr>) late_world))) = [(0, 5)] \<and>
   begins_at (getTime late_world) 5 = 10 \<and>
   begins_at (getTime late_world) 5 \<noteq> getTime late_world + 5"
proof -
  have "started (ctx (snd (play ''win'' (default_options\<lparr>offset := 5\<rparr>) late_world)))
          = [(0, 5)]"
    using play_registered(4) [OF late_world_facts(1), of "default_options\<lparr>offset := 5\<rparr>"]
    by (simp add: late_world_facts default_options_def)
  then show ?thesis by (simp add: late_world_time begins_at_def)
qed

text \<open>
  Claim C8, amended. For a registered name, \<^verbatim>\<open>play\<close> creates the source node and,
  after it, a gain node exactly when the volume is not 1 and a panner node exactly when
  the pan is not 0; it connects them as one path source, gain (if present), panner (if
  present), output; and it starts the source with the offset as the start time on the
  engine clock, the clock that \<^verbatim>\<open>now()\<close> reads: playback begins when that clock reads
  the offset, and at once when it already reads as much (as with the default 0).
\<close>

theorem play_builds_graph:
  "soundLibrary w name = Some buf \<Longrightarrow>
   fst (play name opts w) = Inr (length (nodes (ctx w))) \<and>
   nodes (ctx (snd (play name opts w))) =
     nodes (ctx w) @ AudioBufferSourceNode buf (loop opts) (callback opts)
       # graph_stages (volume opts) (panValue opts) \<and>
   connections (ctx (snd (play name opts w))) =
     connections (ctx w) @
     chain (map (\<lambda>k. NodeRef (length (nodes (ctx w)) + k))
                  [0 ..< Suc (length (graph_stages (volume opts) (panValue opts)))]
            @ [ContextDestination]) \<and>
   started (ctx (snd (play name opts w))) =
     started (ctx w) @ [(length (nodes (ctx w)), offset opts)] \<and>
   getTime (snd (play name opts w)) = getTime w \<and>
   begins_at (getTime w) (offset opts) =
     (if offset opts \<le> getTime w then getTime w else offset opts) \<and>
   ((\<exists>g. GainNode g \<in> set (graph_stages (volume opts) (panValue opts)))
      = (volume opts \<noteq> 1)) \<and>
   ((\<exists>p. StereoPannerNode p \<in> set (graph_stages (volume opts) (panValue opts)))
      = (panValue opts \<noteq> 0))"
proof -
  assume h: "soundLibrary w name = Some buf"
  have g: "(\<exists>g. GainNode g \<in> set (graph_stages (volume opts) (panValue opts)))
             = (volume opts \<noteq> 1)"
    by (simp add: graph_stages_def)
  have p: "(\<exists>p. StereoPannerNode p \<in> set (graph_stages (volume opts) (panValue opts)))
             = (panValue opts \<noteq> 0)"
    by (simp add: graph_stages_def)
  have b: "begins_at (getTime w) (offset opts) =
     (if offset opts \<le> getTime w then getTime w else offset opts)"
    by (simp add: begins_at_def max_def)
  show ?thesis
    using play_registered [OF h, of opts] g p b by (simp add: getTime_def)
qed

theorem play_builds_graph_witness:
  "soundLibrary win_world ''win'' = Some 7 \<and>
   nodes (ctx (snd (play ''win'' (default_options\<lparr>volume := 1/2, panValue := -1\<rparr>) win_world)))
     = [AudioBufferSourceNode 7 False None, GainNode (1/2), StereoPannerNode (-1)] \<and>
   connections
     (ctx (snd (play ''win'' (default_options\<lparr>volume := 1/2, panValue := -1\<rparr>) win_world)))
     = [(NodeRef 0, NodeRef 1), (NodeRef 1, NodeRef 2), (NodeRef 2, ContextDestination)] \<and>
   connections (ctx (snd (play ''win'' default_options win_world)))
     = [(NodeRef 0, ContextDestination)] \<and>
   started (ctx (snd (play ''win'' default_options win_world))) = [(0, 0)] \<and>
   begins_at (getTime win_world) (offset default_options) = getTime win_world"
proof -
  have h: "soundLibrary win_world ''win'' = Some 7"
    by (simp add: win_world_def addSound_def new_AudioManager_def)
  have c: "nodes (ctx win_world) = []" "connections (ctx win_world) = []"
    "started (ctx win_world) = []" "getTime win_world = 0"
    by (simp_all add: win_world_def addSound_def new_AudioManager_def new_AudioContext_def
          getTime_def)
  show ?thesis
    using h c play_builds_graph [OF h, of "default_options\<lparr>volume := 1/2, panValue := -1\<rparr>"]
      play_builds_graph [OF h, of default_options]
    by (simp add: default_options_def graph_stages_def chain_def)
qed

text \<open>
  Claim C7. \<^verbatim>\<open>stopLoop(name)\<close> calls \<^verbatim>\<open>stop\<close> on the handle of every registered
  entry with that name whose flag is set (all of them, when several loops share the
  name) and clears their flags; the registry afterwards holds exactly the other active
  entries, in their order. In a registry whose entries are all active (every reachable
  one, see C10) and none of which has the name, it changes nothing, so also after a
  non-looping \<^verbatim>\<open>play\<close> of that name; it raises no error; and calling it twice is the
  same as calling it once.
\<close>

theorem stopLoop_stops_all_and_is_idempotent:
  "stopped (ctx (stopLoop name w)) =
     stopped (ctx w) @
     map loopHandle (filter (\<lambda>e. soundName e = name \<and> isPlaying e) (loops w)) \<and>
   (\<forall>e \<in> set (stopLoop_mark name (loops w)). soundName e = name \<longrightarrow> \<not> isPlaying e) \<and>
   loops (stopLoop name w) = filter (\<lambda>e. isPlaying e \<and> soundName e \<noteq> name) (loops w) \<and>
   (all_playing w \<and> (\<forall>e \<in> set (loops w). soundName e \<noteq> name) \<longrightarrow>
      stopLoop name w = w \<and>
      (\<not> loop opts \<longrightarrow>
         stopLoop name (snd (play name opts w)) = snd (play name opts w))) \<and>
   stopLoop name (stopLoop name w) = stopLoop name w"
proof -
  have a: "stopped (ctx (stopLoop name w)) =
     stopped (ctx w) @
     map loopHandle (filter (\<lambda>e. soundName e = name \<and> isPlaying e) (loops w))"
    by (simp add: stopLoop_stopped stopLoop_hit_def [abs_def])
  have b: "\<forall>e \<in> set (stopLoop_mark name (loops w)). soundName e = name \<longrightarrow> \<not> isPlaying e"
    using stopLoop_mark_flags by blast
  have c: "loops (stopLoop name w)
             = filter (\<lambda>e. isPlaying e \<and> soundName e \<noteq> name) (loops w)"
    by (rule stopLoop_loops)
  have d: "stopLoop name w = w \<and>
      (\<not> loop opts \<longrightarrow> stopLoop name (snd (play name opts w)) = snd (play name opts w))"
    if h: "all_playing w \<and> (\<forall>e \<in> set (loops w). soundName e \<noteq> name)"
  proof -
    have i: "\<forall>e \<in> set (loops w). isPlaying e \<and> soundName e \<noteq> name"
      using h by (simp add: all_playing_def)
    have "loops (snd (play name opts w)) = loops w" if "\<not> loop opts"
      using that by (simp add: play_loops split: sum.splits)
    then show ?thesis using i stopLoop_noop by metis
  qed
  have e: "stopLoop name (stopLoop name w) = stopLoop name w"
    by (rule stopLoop_idem)
  from a b c d e show ?thesis by blast
qed

theorem stopLoop_stops_all_and_is_idempotent_witness:
  "stopped (ctx (stopLoop ''a'' loop_world)) = [0, 1] \<and>
   loops (stopLoop ''a'' loop_world)
     = [\<lparr>soundName = ''b'', loopHandle = 2, isPlaying = True\<rparr>] \<and>
   all_playing loop_world \<and> ''c'' \<notin> soundName ` set (loops loop_world) \<and>
   stopLoop ''c'' loop_world = loop_world"
proof -
  have h: "all_playing loop_world \<and> (\<forall>e \<in> set (loops loop_world). soundName e \<noteq> ''c'')"
    by (simp add: all_playing_def loop_world_loops)
  show ?thesis
    using h stopLoop_stops_all_and_is_idempotent [of "''a''" loop_world default_options]
      stopLoop_stops_all_and_is_idempotent [of "''c''" loop_world default_options]
    by (simp add: loop_world_loops loop_world_stopped)
qed

section \<open>Properties of the sequencer\<close>

lemma speak_frame:
  "sequences (speak txt cb vp r w) = sequences w"
  "timers (speak txt cb vp r w) = timers w"
  "clock (speak txt cb vp r w) = clock w"
  "history (speak txt cb vp r w) = history w"
  "errors (speak txt cb vp r w) = errors w"
  "loops (speak txt cb vp r w) = loops w"
  "soundLibrary (speak txt cb vp r w) = soundLibrary w"
  "current_queue (speak txt cb vp r w) = current_queue w"
  "pending (speak txt cb vp r w) = pending w @ (case cb of None \<Rightarrow> [] | Some c \<Rightarrow> [c])"
  by (simp_all add: speak_def Let_def)

lemma cancel_frame:
  "timers (cancel q w) = timers w"
  "clock (cancel q w) = clock w"
  "history (cancel q w) = history w"
  "errors (cancel q w) = errors w"
  "loops (cancel q w) = loops w"
  "pending (cancel q w) = pending w"
  "soundLibrary (cancel q w) = soundLibrary w"
  "current_queue (cancel q w) = current_queue w"
  "sequences (cancel q w) = (sequences w)
     [q := (sequences w ! q)\<lparr>seq_isPlaying := False, currentItem := None, seq_queue := []\<rparr>]"
  by (simp_all add: cancel_def)

lemma log_entry_frame:
  "timers (log_entry e w) = timers w"
  "clock (log_entry e w) = clock w"
  "history (log_entry e w) = history w @ [e]"
  "errors (log_entry e w) = errors w"
  "loops (log_entry e w) = loops w"
  "pending (log_entry e w) = pending w"
  "sequences (log_entry e w) = sequences w"
  "soundLibrary (log_entry e w) = soundLibrary w"
  "current_queue (log_entry e w) = current_queue w"
  by (simp_all add: log_entry_def)

lemma seq_callback_frame:
  "clock (seq_callback q w) = clock w"
  "errors (seq_callback q w) = errors w"
  "loops (seq_callback q w) = loops w"
  "pending (seq_callback q w) = pending w"
  "soundLibrary (seq_callback q w) = soundLibrary w"
  "current_queue (seq_callback q w) = current_queue w"
  "history (seq_callback q w) = history w @ [Finished q (clock w)]"
  "timers (seq_callback q w) =
     timers w @ (if hasNext (sequences w ! q)
                 then [(clock w + spacing (sequences w ! q), q)] else [])"
  "sequences (seq_callback q w) =
     (if hasNext (sequences w ! q) then sequences w
      else (sequences w)[q := (sequences w ! q)
             \<lparr>seq_isPlaying := False, currentItem := None, seq_queue := []\<rparr>])"
  by (simp_all add: seq_callback_def Let_def cancel_frame log_entry_frame)

lemma doNext_alt:
  "doNext q w =
     (let s = sequences w ! q in
      if hasNext s \<and> seq_isPlaying s then
        (let firstItem = hd (seq_queue s);
             w1 = w\<lparr>sequences := (sequences w)[q := s\<lparr>seq_queue := tl (seq_queue s)\<rparr>]\<rparr>;
             r = play (item firstItem)
                   (default_options\<lparr>callback := Some (SequenceCallback q)\<rparr>) w1
         in if mediaType firstItem = ''text'' then
              (case prefs firstItem of
                 None \<Rightarrow> (Inl (TypeError ''firstItem.prefs is undefined''), w1)
               | Some voicePreference \<Rightarrow>
                   (Inr (),
                    log_entry (Invoked q firstItem (clock w))
                      (speak (item firstItem) (Some (SequenceCallback q)) voicePreference
                         1.5 w1)))
            else if mediaType firstItem = ''sound'' then
              (case fst r of
                 Inl e \<Rightarrow> (Inl e, snd r)
               | Inr h \<Rightarrow> (Inr (), log_entry (Invoked q firstItem (clock w)) (snd r)))
            else (Inl (Error ''invalid media type''), w1))
      else (Inl (TypeError ''this.shutdown is not a function''), w))"
  by (simp add: doNext_def Let_def split: prod.splits sum.splits)

lemma doNext_guard:
  "\<not> (hasNext (sequences w ! q) \<and> seq_isPlaying (sequences w ! q)) \<Longrightarrow>
   doNext q w = (Inl (TypeError ''this.shutdown is not a function''), w)"
  unfolding doNext_def Let_def by (simp only: if_False)

lemma doNext_ok_guard:
  "\<not> isl (fst (doNext q w)) \<Longrightarrow> hasNext (sequences w ! q) \<and> seq_isPlaying (sequences w ! q)"
  by (rule ccontr) (simp add: doNext_guard)

lemma doNext_frame:
  "timers (snd (doNext q w)) = timers w"
  "clock (snd (doNext q w)) = clock w"
  "errors (snd (doNext q w)) = errors w"
  "loops (snd (doNext q w)) = loops w"
  "soundLibrary (snd (doNext q w)) = soundLibrary w"
  "current_queue (snd (doNext q w)) = current_queue w"
  by (simp_all add: doNext_alt Let_def log_entry_frame speak_frame play_frame play_loops
        default_options_def split: option.splits sum.splits)

lemma doNext_sequences:
  "sequences (snd (doNext q w)) =
     (if hasNext (sequences w ! q) \<and> seq_isPlaying (sequences w ! q)
      then (sequences w)[q := (sequences w ! q)\<lparr>seq_queue := tl (seq_queue (sequences w ! q))\<rparr>]
      else sequences w)"
  by (simp add: doNext_alt Let_def log_entry_frame speak_frame play_frame
        split: option.splits sum.splits)

lemma doNext_pending:
  "pending (snd (doNext q w)) =
     pending w @ (if isl (fst (doNext q w)) then [] else [SequenceCallback q])"
  by (simp add: doNext_alt Let_def log_entry_frame speak_frame play_frame play_pending
        default_options_def split: option.splits sum.splits)

lemma doNext_history:
  "history (snd (doNext q w)) =
     history w @ (if isl (fst (doNext q w)) then []
                  else [Invoked q (hd (seq_queue (sequences w ! q))) (clock w)])"
  by (simp add: doNext_alt Let_def log_entry_frame speak_frame play_frame
        split: option.splits sum.splits)

lemma same_view_refl: "same_view q w w"
  by (simp add: same_view_def)

lemma same_view_trans: "same_view q w w1 \<Longrightarrow> same_view q w1 w2 \<Longrightarrow> same_view q w w2"
  by (auto simp: same_view_def)

lemma live_same_view:
  assumes "same_view q w w'" and "q < length (sequences w)"
  shows "live ph rest sp q w \<Longrightarrow> live ph rest sp q w'"
  using assms by (cases ph) (auto simp: same_view_def)

lemma tracked_same_view:
  assumes "tracked sp its q w" and "same_view q w w'"
  shows "tracked sp its q w'"
proof -
  from assms(1) have q: "q < length (sequences w)" by (simp add: tracked_def)
  from assms(2) have h: "proj q (history w') = proj q (history w)"
    and s: "sequences w' ! q = sequences w ! q" and l: "q < length (sequences w')"
    and d: "dead q w \<Longrightarrow> dead q w'"
    using q by (auto simp: same_view_def dead_def)
  show ?thesis
    using assms(1) live_same_view [OF assms(2) q] d
    by (auto simp: tracked_def h s l split: option.splits)
qed

lemma unborn_same_view:
  "unborn q w \<Longrightarrow> same_view q w w' \<Longrightarrow> length (sequences w') \<le> q \<Longrightarrow> unborn q w'"
  by (simp add: unborn_def same_view_def)

lemma filter_remove_nth_other:
  assumes "k < length xs" and "\<not> P (xs ! k)"
  shows "filter P (remove_nth k xs) = filter P xs"
proof -
  have "filter P xs = filter P (take k xs @ xs ! k # drop (Suc k) xs)"
    using assms(1) by (simp add: id_take_nth_drop [symmetric])
  then show ?thesis using assms(2) by (simp add: remove_nth_def)
qed

lemma filter_remove_nth_hit:
  assumes "k < length xs" and "P (xs ! k)"
  shows "filter P xs = filter P (take k xs) @ xs ! k # filter P (drop (Suc k) xs)"
    and "filter P (remove_nth k xs) = filter P (take k xs) @ filter P (drop (Suc k) xs)"
proof -
  have "filter P xs = filter P (take k xs @ xs ! k # drop (Suc k) xs)"
    using assms(1) by (simp add: id_take_nth_drop [symmetric])
  then show "filter P xs = filter P (take k xs) @ xs ! k # filter P (drop (Suc k) xs)"
    using assms(2) by simp
  show "filter P (remove_nth k xs) = filter P (take k xs) @ filter P (drop (Suc k) xs)"
    by (simp add: remove_nth_def)
qed

lemma same_view_speak:
  "cb \<noteq> Some (SequenceCallback q) \<Longrightarrow> same_view q w (speak txt cb vp r w)"
  by (cases cb) (auto simp: same_view_def npend_def ntim_def speak_frame)

lemma same_view_play:
  "callback opts \<noteq> Some (SequenceCallback q) \<Longrightarrow> same_view q w (snd (play name opts w))"
  by (cases "callback opts")
     (auto simp: same_view_def npend_def ntim_def play_frame play_pending split: sum.splits)

lemma same_view_cancel: "q' \<noteq> q \<Longrightarrow> same_view q w (cancel q' w)"
  by (simp add: same_view_def npend_def ntim_def cancel_frame)

lemma same_view_seq_callback: "q' \<noteq> q \<Longrightarrow> same_view q w (seq_callback q' w)"
  by (simp add: same_view_def npend_def ntim_def proj_def seq_callback_frame)

lemma same_view_doNext: "q' \<noteq> q \<Longrightarrow> same_view q w (snd (doNext q' w))"
  by (simp add: same_view_def npend_def ntim_def proj_def doNext_frame doNext_pending
        doNext_history doNext_sequences)

lemma same_view_raised: "same_view q w (snd rw) \<Longrightarrow> same_view q w (raised rw)"
  by (auto simp: same_view_def raised_def npend_def ntim_def split: sum.splits)

lemma same_view_addSound: "same_view q w (addSound name b w)"
  by (simp add: same_view_def npend_def ntim_def addSound_def)

lemma same_view_stopLoop: "same_view q w (stopLoop name w)"
  by (simp add: same_view_def npend_def ntim_def stopLoop_def)

lemma same_view_tick: "same_view q w (time_passes d w)"
  by (simp add: same_view_def npend_def ntim_def time_passes_def)

lemma same_view_drop_pending:
  "k < length (pending w) \<Longrightarrow> pending w ! k \<noteq> SequenceCallback q \<Longrightarrow>
   same_view q w (w\<lparr>pending := remove_nth k (pending w)\<rparr>)"
  by (simp add: same_view_def npend_def ntim_def filter_remove_nth_other)

lemma same_view_drop_timer:
  "k < length (timers w) \<Longrightarrow> snd (timers w ! k) \<noteq> q \<Longrightarrow>
   same_view q w (w\<lparr>timers := remove_nth k (timers w)\<rparr>)"
  by (simp add: same_view_def npend_def ntim_def filter_remove_nth_other)

lemma tracked_elim:
  assumes "tracked sp its q w"
  obtains ph rest where "observe sp its (proj q (history w)) = Some (ph, rest)"
    and "q < length (sequences w)" and "spacing (sequences w ! q) = sp"
    and "dead q w \<or> live ph rest sp q w"
  using assms by (auto simp: tracked_def split: option.splits)

lemma tracked_intro:
  assumes "observe sp its (proj q (history w)) = Some (ph, rest)"
    and "q < length (sequences w)" and "spacing (sequences w ! q) = sp"
    and "dead q w \<or> live ph rest sp q w"
  shows "tracked sp its q w"
  using assms by (simp add: tracked_def)

lemma observe_snoc:
  "observe sp its (tr @ [e]) = advance sp (observe sp its tr) e"
  by (simp add: observe_def)

lemma tracked_callback:
  assumes t: "tracked sp its q w" and k: "k < length (pending w)"
    and c: "pending w ! k = SequenceCallback q"
  shows "tracked sp its q (seq_callback q (w\<lparr>pending := remove_nth k (pending w)\<rparr>))"
proof -
  let ?w1 = "w\<lparr>pending := remove_nth k (pending w)\<rparr>"
  let ?w2 = "seq_callback q ?w1"
  let ?s = "sequences w ! q"
  from t obtain ph rest where obs: "observe sp its (proj q (history w)) = Some (ph, rest)"
    and q: "q < length (sequences w)" and sp: "spacing ?s = sp"
    and dl: "dead q w \<or> live ph rest sp q w"
    by (rule tracked_elim)
  have np: "npend q w = Suc (npend q ?w1)"
    using filter_remove_nth_hit [of k "pending w" "\<lambda>cb. cb = SequenceCallback q"] k c
    by (simp add: npend_def)
  then have "\<not> dead q w" by (simp add: dead_def)
  with dl have lv: "live ph rest sp q w" by simp
  then obtain t0 where ph: "ph = InFlight t0" using np by (cases ph) auto
  from lv ph np have n1: "npend q ?w1 = 0" and nt: "ntim q w = []" and tc: "t0 \<le> clock w"
    and sq: "(\<not> seq_isPlaying ?s \<and> seq_queue ?s = []) \<or> (seq_isPlaying ?s \<and> seq_queue ?s = rest)"
    by auto
  have h2: "proj q (history ?w2) = proj q (history w) @ [Finished q (clock w)]"
    by (simp add: seq_callback_frame proj_def)
  have obs2: "observe sp its (proj q (history ?w2)) = Some (Gap (clock w), rest)"
    using obs ph tc by (simp add: h2 observe_snoc)
  have np2: "npend q ?w2 = 0"
    using n1 by (simp add: npend_def seq_callback_frame)
  show ?thesis
  proof (cases "hasNext ?s")
    case True
    have sq2: "sequences ?w2 = sequences w"
      using True by (simp add: seq_callback_frame)
    have nt2: "ntim q ?w2 = [(clock w + sp, q)]"
      using nt sp True by (simp add: ntim_def seq_callback_frame)
    have "seq_queue ?s = rest \<and> rest \<noteq> []"
      using True sq by (auto simp: hasNext_def)
    then have "live (Gap (clock w)) rest sp q ?w2"
      using np2 nt2 by (simp add: sq2)
    then show ?thesis
      using obs2 q sp by (intro tracked_intro [where ph = "Gap (clock w)" and rest = rest])
        (simp_all add: sq2)
  next
    case False
    have sq2: "sequences ?w2 = (sequences w)
        [q := ?s\<lparr>seq_isPlaying := False, currentItem := None, seq_queue := []\<rparr>]"
      using False by (simp add: seq_callback_frame)
    have nt2: "ntim q ?w2 = []"
      using nt False by (simp add: ntim_def seq_callback_frame)
    have "dead q ?w2" using np2 nt2 by (simp add: dead_def)
    then show ?thesis
      using obs2 q sp by (intro tracked_intro [where ph = "Gap (clock w)" and rest = rest])
        (simp_all add: sq2)
  qed
qed

lemma tracked_timer:
  assumes t: "tracked sp its q w" and k: "k < length (timers w)"
    and c: "snd (timers w ! k) = q" and due: "fst (timers w ! k) \<le> clock w"
  shows "tracked sp its q (raised (doNext q (w\<lparr>timers := remove_nth k (timers w)\<rparr>)))"
proof -
  let ?w1 = "w\<lparr>timers := remove_nth k (timers w)\<rparr>"
  let ?r = "doNext q ?w1"
  let ?w2 = "raised ?r"
  let ?s = "sequences w ! q"
  from t obtain ph rest where obs: "observe sp its (proj q (history w)) = Some (ph, rest)"
    and q: "q < length (sequences w)" and sp: "spacing ?s = sp"
    and dl: "dead q w \<or> live ph rest sp q w"
    by (rule tracked_elim)
  have split: "ntim q w = filter (\<lambda>t. snd t = q) (take k (timers w)) @ timers w ! k
                 # filter (\<lambda>t. snd t = q) (drop (Suc k) (timers w))"
    and rest1: "ntim q ?w1 = filter (\<lambda>t. snd t = q) (take k (timers w))
                 @ filter (\<lambda>t. snd t = q) (drop (Suc k) (timers w))"
    using filter_remove_nth_hit [of k "timers w" "\<lambda>t. snd t = q"] k c
    by (simp_all add: ntim_def)
  from split have ne: "ntim q w \<noteq> []" by simp
  then have "\<not> dead q w" by (simp add: dead_def)
  with dl have lv: "live ph rest sp q w" by simp
  then obtain c0 where ph: "ph = Gap c0" using ne by (cases ph) auto
  from lv ph have n0: "npend q w = 0" and nt: "ntim q w = [(c0 + sp, q)]"
    and sq: "\<not> seq_isPlaying ?s \<or> (seq_queue ?s = rest \<and> rest \<noteq> [])"
    by auto
  from nt split have tk: "timers w ! k = (c0 + sp, q)" and nt1: "ntim q ?w1 = []"
    by (auto simp: rest1 append_eq_Cons_conv)
  from tk due have c0: "c0 + sp \<le> clock w" by simp
  have fr: "timers ?w2 = timers ?w1" "clock ?w2 = clock w" "sequences ?w2 = sequences (snd ?r)"
    "pending ?w2 = pending (snd ?r)" "history ?w2 = history (snd ?r)"
    by (simp_all add: raised_def doNext_frame split: sum.splits)
  have nt2: "ntim q ?w2 = []"
    using nt1 by (simp add: ntim_def fr)
  have len: "length (sequences ?w2) = length (sequences w)"
    by (simp add: fr doNext_sequences)
  have sp2: "spacing (sequences ?w2 ! q) = sp"
    using sp q by (simp add: fr doNext_sequences)
  show ?thesis
  proof (cases "isl (fst ?r)")
    case True
    have "npend q ?w2 = 0" using n0 True by (simp add: npend_def fr doNext_pending)
    then have d: "dead q ?w2" using nt2 by (simp add: dead_def)
    have "proj q (history ?w2) = proj q (history w)"
      using True by (simp add: fr doNext_history)
    then show ?thesis
      using obs q sp2 d len by (intro tracked_intro [where ph = ph and rest = rest]) simp_all
  next
    case False
    from doNext_ok_guard [OF False] have g: "hasNext ?s" "seq_isPlaying ?s" by simp_all
    with sq have qr: "seq_queue ?s = rest" "rest \<noteq> []" by simp_all
    have np2: "npend q ?w2 = 1" using n0 False by (simp add: npend_def fr doNext_pending)
    have h2: "proj q (history ?w2) = proj q (history w) @ [Invoked q (hd rest) (clock w)]"
      using False qr by (simp add: fr doNext_history proj_def)
    have "advance sp (Some (Gap c0, hd rest # tl rest)) (Invoked q (hd rest) (clock w))
            = Some (InFlight (clock w), tl rest)"
      using c0 by simp
    then have obs2: "observe sp its (proj q (history ?w2)) = Some (InFlight (clock w), tl rest)"
      using obs ph qr by (simp add: h2 observe_snoc)
    have s2: "sequences ?w2 ! q = ?s\<lparr>seq_queue := tl rest\<rparr>"
      using g q qr by (simp add: fr doNext_sequences)
    have "live (InFlight (clock w)) (tl rest) sp q ?w2"
      using np2 nt2 g by (simp add: s2 fr(2))
    then show ?thesis
      using obs2 sp2 q len
      by (intro tracked_intro [where ph = "InFlight (clock w)" and rest = "tl rest"]) simp_all
  qed
qed

lemma tracked_cancel:
  assumes t: "tracked sp its q w"
  shows "tracked sp its q (cancel q w)"
proof -
  let ?s = "sequences w ! q"
  from t obtain ph rest where obs: "observe sp its (proj q (history w)) = Some (ph, rest)"
    and q: "q < length (sequences w)" and sp: "spacing ?s = sp"
    and dl: "dead q w \<or> live ph rest sp q w"
    by (rule tracked_elim)
  have v: "npend q (cancel q w) = npend q w" "ntim q (cancel q w) = ntim q w"
    "proj q (history (cancel q w)) = proj q (history w)" "clock (cancel q w) = clock w"
    by (simp_all add: npend_def ntim_def cancel_frame)
  have s: "sequences (cancel q w) ! q
             = ?s\<lparr>seq_isPlaying := False, currentItem := None, seq_queue := []\<rparr>"
    using q by (simp add: cancel_frame)
  have d: "dead q w \<Longrightarrow> dead q (cancel q w)" by (simp add: dead_def v)
  have l: "live ph rest sp q w \<Longrightarrow> live ph rest sp q (cancel q w)"
    by (cases ph) (simp_all add: v s)
  show ?thesis
    using obs q sp dl d l
    by (intro tracked_intro [where ph = ph and rest = rest])
       (auto simp: v s cancel_frame)
qed

lemma sws_alt:
  "speakWithSoundEffects txt vp w =
     (case fst (doNext (length (sequences w)) (born txt vp w)) of
        Inl e \<Rightarrow> (Inl e, snd (doNext (length (sequences w)) (born txt vp w)))
      | Inr u \<Rightarrow> (Inr (length (sequences w)),
                  (snd (doNext (length (sequences w)) (born txt vp w)))
                    \<lparr>current_queue := Some (length (sequences w))\<rparr>))"
  by (simp add: speakWithSoundEffects_def start_def born_def new_AudioSequence_def Let_def
        split: prod.splits sum.splits)

lemma born_frame:
  "pending (born txt vp w) = pending w"
  "timers (born txt vp w) = timers w"
  "history (born txt vp w) = history w"
  "clock (born txt vp w) = clock w"
  "loops (born txt vp w) = loops w"
  "length (sequences (born txt vp w)) = Suc (length (sequences w))"
  "q < length (sequences w) \<Longrightarrow> sequences (born txt vp w) ! q = sequences w ! q"
  "sequences (born txt vp w) ! length (sequences w) =
     \<lparr>seq_queue = parse_cues txt vp, spacing = 100, playing = False,
      currentItem = None, seq_isPlaying = True\<rparr>"
  by (simp_all add: born_def nth_append)

lemma same_view_born: "same_view q w (born txt vp w)"
  by (simp add: same_view_def npend_def ntim_def born_frame)

lemma same_view_current_queue: "same_view q w (w\<lparr>current_queue := x\<rparr>)"
  by (simp add: same_view_def npend_def ntim_def)

lemma same_view_sws:
  assumes "q \<noteq> length (sequences w)"
  shows "same_view q w (snd (speakWithSoundEffects txt vp w))"
proof -
  let ?d = "snd (doNext (length (sequences w)) (born txt vp w))"
  have n: "length (sequences w) \<noteq> q" using assms by simp
  have a: "same_view q w ?d"
    by (rule same_view_trans [OF same_view_born same_view_doNext [OF n]])
  have b: "same_view q w (?d\<lparr>current_queue := Some (length (sequences w))\<rparr>)"
    by (rule same_view_trans [OF a same_view_current_queue])
  show ?thesis
  proof (cases "fst (doNext (length (sequences w)) (born txt vp w))")
    case (Inl e)
    then show ?thesis using a by (simp add: sws_alt)
  next
    case (Inr u)
    then show ?thesis using b by (simp add: sws_alt)
  qed
qed

lemma tracked_sws:
  assumes u: "unborn q w" and q: "q = length (sequences w)"
  shows "tracked 100 (parse_cues txt vp) q (snd (speakWithSoundEffects txt vp w))"
proof -
  let ?b = "born txt vp w"
  let ?r = "doNext q ?b"
  let ?its = "parse_cues txt vp"
  have ne: "?its \<noteq> []" by (rule parse_cues_nonempty)
  have sb: "sequences ?b ! q = \<lparr>seq_queue = ?its, spacing = 100, playing = False,
      currentItem = None, seq_isPlaying = True\<rparr>"
    using q by (simp add: born_frame)
  have g: "hasNext (sequences ?b ! q)" "seq_isPlaying (sequences ?b ! q)"
    using ne by (simp_all add: sb hasNext_def)
  have s2: "sequences (snd ?r) ! q = \<lparr>seq_queue = tl ?its, spacing = 100, playing = False,
      currentItem = None, seq_isPlaying = True\<rparr>"
    using g q by (simp add: doNext_sequences sb born_frame)
  have len: "q < length (sequences (snd ?r))"
    using q by (simp add: doNext_sequences born_frame)
  have nt: "ntim q (snd ?r) = []"
    using u by (simp add: ntim_def unborn_def doNext_frame born_frame)
  have core: "tracked 100 ?its q (snd ?r)"
  proof (cases "isl (fst ?r)")
    case True
    have "npend q (snd ?r) = 0"
      using u True by (simp add: npend_def unborn_def doNext_pending born_frame)
    then have d: "dead q (snd ?r)" using nt by (simp add: dead_def)
    have "proj q (history (snd ?r)) = []"
      using u True by (simp add: unborn_def doNext_history born_frame)
    then have "observe 100 ?its (proj q (history (snd ?r))) = Some (Idle, ?its)"
      by (simp add: observe_def)
    then show ?thesis
      using d len by (intro tracked_intro [where ph = Idle and rest = ?its]) (simp_all add: s2)
  next
    case False
    have np: "npend q (snd ?r) = 1"
      using u False by (simp add: npend_def unborn_def doNext_pending born_frame)
    have "proj q (history (snd ?r)) = [Invoked q (hd ?its) (clock w)]"
      using u False by (simp add: unborn_def doNext_history born_frame proj_def sb)
    moreover have "advance 100 (Some (Idle, hd ?its # tl ?its)) (Invoked q (hd ?its) (clock w))
            = Some (InFlight (clock w), tl ?its)"
      by simp
    ultimately have obs: "observe 100 ?its (proj q (history (snd ?r)))
        = Some (InFlight (clock w), tl ?its)"
      using ne by (simp add: observe_def)
    have "live (InFlight (clock w)) (tl ?its) 100 q (snd ?r)"
      using np nt by (simp add: s2 doNext_frame born_frame)
    then show ?thesis
      using obs len
      by (intro tracked_intro [where ph = "InFlight (clock w)" and rest = "tl ?its"])
         (simp_all add: s2)
  qed
  have upd: "tracked 100 ?its q ((snd ?r)\<lparr>current_queue := Some q\<rparr>)"
    by (rule tracked_same_view [OF core same_view_current_queue])
  show ?thesis
  proof (cases "fst ?r")
    case (Inl e)
    then show ?thesis using core q by (simp add: sws_alt)
  next
    case (Inr u)
    then show ?thesis using upd q by (simp add: sws_alt)
  qed
qed

lemma same_view_step:
  assumes "\<forall>txt vp. e = Call_speakWithSoundEffects txt vp \<longrightarrow> q \<noteq> length (sequences w)"
    and "e \<noteq> Call_cancel q"
    and "\<forall>k. e = CallbackFires k \<longrightarrow> k < length (pending w) \<longrightarrow> pending w ! k \<noteq> SequenceCallback q"
    and "\<forall>k. e = TimerFires k \<longrightarrow> k < length (timers w) \<longrightarrow> snd (timers w ! k) \<noteq> q"
  shows "same_view q w (step e w)"
proof (cases e)
  case (Tick d)
  then show ?thesis by (simp add: same_view_tick)
next
  case (CallbackFires k)
  show ?thesis
  proof (cases "k < length (pending w)")
    case True
    then have n: "pending w ! k \<noteq> SequenceCallback q" using assms(3) CallbackFires by simp
    have a: "same_view q w (w\<lparr>pending := remove_nth k (pending w)\<rparr>)"
      using same_view_drop_pending [OF True n] .
    show ?thesis
    proof (cases "pending w ! k")
      case (SequenceCallback q')
      then have "q' \<noteq> q" using n by simp
      then show ?thesis
        using same_view_trans [OF a same_view_seq_callback] CallbackFires True SequenceCallback
        by (simp add: Let_def)
    next
      case (ExternalCallback f)
      then show ?thesis using a CallbackFires True by (simp add: Let_def)
    qed
  next
    case False
    then show ?thesis using CallbackFires by (simp add: same_view_refl)
  qed
next
  case (TimerFires k)
  show ?thesis
  proof (cases "k < length (timers w) \<and> fst (timers w ! k) \<le> clock w")
    case True
    then have n: "snd (timers w ! k) \<noteq> q" using assms(4) TimerFires by simp
    have a: "same_view q w (w\<lparr>timers := remove_nth k (timers w)\<rparr>)"
      using same_view_drop_timer True n by blast
    show ?thesis
      using same_view_raised [OF same_view_trans [OF a same_view_doNext [OF n]]]
        TimerFires True by simp
  next
    case False
    then show ?thesis using TimerFires by (auto simp: same_view_refl)
  qed
next
  case (Call_addSound name b)
  then show ?thesis by (simp add: same_view_addSound)
next
  case (Call_play name cb v p l off)
  have "same_view q w (snd (play name \<lparr>callback = map_option ExternalCallback cb, volume = v,
           panValue = p, loop = l, offset = off\<rparr> w))"
    by (rule same_view_play) (cases cb, simp_all)
  then show ?thesis using Call_play by (simp add: same_view_raised)
next
  case (Call_stopLoop name)
  then show ?thesis by (simp add: same_view_stopLoop)
next
  case (Call_speak tx cb vp rate)
  have "same_view q w (speak tx (map_option ExternalCallback cb) vp rate w)"
    by (rule same_view_speak) (cases cb, simp_all)
  then show ?thesis using Call_speak by simp
next
  case (Call_speakWithSoundEffects tx vp)
  then have "q \<noteq> length (sequences w)" using assms(1) by simp
  then show ?thesis
    using Call_speakWithSoundEffects by (simp add: same_view_raised same_view_sws)
next
  case (Call_cancel q')
  then have "q' \<noteq> q" using assms(2) by simp
  then show ?thesis using Call_cancel by (simp add: same_view_cancel same_view_refl)
qed

lemma tracked_step:
  assumes t: "tracked sp its q w"
  shows "tracked sp its q (step e w)"
proof -
  from t have q: "q < length (sequences w)" by (simp add: tracked_def)
  consider (cb) k where "e = CallbackFires k" "k < length (pending w)"
        "pending w ! k = SequenceCallback q"
    | (tm) k where "e = TimerFires k" "k < length (timers w)" "snd (timers w ! k) = q"
    | (cn) "e = Call_cancel q"
    | (other) "e \<noteq> Call_cancel q"
        "\<forall>k. e = CallbackFires k \<longrightarrow> k < length (pending w) \<longrightarrow> pending w ! k \<noteq> SequenceCallback q"
        "\<forall>k. e = TimerFires k \<longrightarrow> k < length (timers w) \<longrightarrow> snd (timers w ! k) \<noteq> q"
    by blast
  then show ?thesis
  proof cases
    case cb
    then show ?thesis using tracked_callback [OF t cb(2) cb(3)] by (simp add: Let_def)
  next
    case tm
    show ?thesis
    proof (cases "fst (timers w ! k) \<le> clock w")
      case True
      then show ?thesis using tracked_timer [OF t tm(2) tm(3) True] tm by simp
    next
      case False
      then show ?thesis using t tm by simp
    qed
  next
    case cn
    then show ?thesis using tracked_cancel [OF t] q by simp
  next
    case other
    have "same_view q w (step e w)"
      using other q by (intro same_view_step) auto
    then show ?thesis using tracked_same_view [OF t] by blast
  qed
qed

lemma tracked_run: "tracked sp its q w \<Longrightarrow> tracked sp its q (run evs w)"
  by (induction evs arbitrary: w) (simp_all add: tracked_step)

lemma tracked_in_order: "tracked sp its q w \<Longrightarrow> in_order sp its (proj q (history w))"
  by (auto simp: tracked_def in_order_def split: option.splits)

lemma raised_frame:
  "sequences (raised rw) = sequences (snd rw)"
  "loops (raised rw) = loops (snd rw)"
  "pending (raised rw) = pending (snd rw)"
  "timers (raised rw) = timers (snd rw)"
  "history (raised rw) = history (snd rw)"
  "clock (raised rw) = clock (snd rw)"
  "current_queue (raised rw) = current_queue (snd rw)"
  "soundLibrary (raised rw) = soundLibrary (snd rw)"
  by (simp_all add: raised_def split: sum.splits)

lemma sws_frame:
  "length (sequences (snd (speakWithSoundEffects txt vp w))) = Suc (length (sequences w))"
  "loops (snd (speakWithSoundEffects txt vp w)) = loops w"
  "timers (snd (speakWithSoundEffects txt vp w)) = timers w"
  "clock (snd (speakWithSoundEffects txt vp w)) = clock w"
  "q < length (sequences w) \<Longrightarrow>
     sequences (snd (speakWithSoundEffects txt vp w)) ! q = sequences w ! q"
  by (simp_all add: sws_alt doNext_frame doNext_sequences born_frame split: sum.splits)

lemma length_sequences_step:
  "length (sequences (step e w)) =
     (case e of Call_speakWithSoundEffects tx vp \<Rightarrow> Suc (length (sequences w))
              | _ \<Rightarrow> length (sequences w))"
  by (cases e)
     (simp_all add: Let_def seq_callback_frame raised_frame doNext_sequences addSound_def
        play_frame stopLoop_def speak_frame sws_frame cancel_frame time_passes_def
        split: callback.splits)

lemma unborn_no_pending:
  "unborn q w \<Longrightarrow> k < length (pending w) \<Longrightarrow> pending w ! k \<noteq> SequenceCallback q"
proof
  assume u: "unborn q w" and k: "k < length (pending w)" and e: "pending w ! k = SequenceCallback q"
  have "pending w ! k \<in> set (filter (\<lambda>cb. cb = SequenceCallback q) (pending w))"
    using k e nth_mem [OF k] by simp
  then show False using u by (simp add: unborn_def npend_def del: set_filter)
qed

lemma unborn_no_timer:
  "unborn q w \<Longrightarrow> k < length (timers w) \<Longrightarrow> snd (timers w ! k) \<noteq> q"
proof
  assume u: "unborn q w" and k: "k < length (timers w)" and e: "snd (timers w ! k) = q"
  have "timers w ! k \<in> set (filter (\<lambda>t. snd t = q) (timers w))"
    using k e nth_mem [OF k] by simp
  then show False using u by (simp add: unborn_def ntim_def del: set_filter)
qed

lemma wf_world_step:
  assumes "wf_world w"
  shows "wf_world (step e w)"
  unfolding wf_world_def
proof (intro allI impI)
  fix q
  assume l: "length (sequences (step e w)) \<le> q"
  have l0: "length (sequences w) \<le> q"
    using l by (simp add: length_sequences_step split: event.splits)
  then have u: "unborn q w" using assms by (simp add: wf_world_def)
  show "unborn q (step e w)"
  proof (cases "e = Call_cancel q")
    case True
    then show ?thesis using u l0 by simp
  next
    case False
    have "\<forall>tx vp. e = Call_speakWithSoundEffects tx vp \<longrightarrow> q \<noteq> length (sequences w)"
      using l by (auto simp: length_sequences_step)
    then have "same_view q w (step e w)"
      using False unborn_no_pending [OF u] unborn_no_timer [OF u]
      by (intro same_view_step) auto
    then show ?thesis using unborn_same_view [OF u _ l] by blast
  qed
qed

lemma wf_world_run: "wf_world w \<Longrightarrow> wf_world (run evs w)"
  by (induction evs arbitrary: w) (simp_all add: wf_world_step)

lemma wf_world_new: "wf_world (new_AudioManager vs)"
  by (simp add: wf_world_def unborn_def npend_def ntim_def proj_def new_AudioManager_def)

lemma run_append: "run (xs @ ys) w = run ys (run xs w)"
  by (induction xs arbitrary: w) simp_all

lemma tracked_after_call:
  assumes "wf_world w"
  shows "tracked 100 (parse_cues txt vp) (length (sequences w))
           (run evs (step (Call_speakWithSoundEffects txt vp) w))"
proof -
  have u: "unborn (length (sequences w)) w" using assms by (simp add: wf_world_def)
  have t: "tracked 100 (parse_cues txt vp) (length (sequences w))
             (snd (speakWithSoundEffects txt vp w))"
    by (rule tracked_sws [OF u refl])
  have "same_view (length (sequences w)) (snd (speakWithSoundEffects txt vp w))
          (raised (speakWithSoundEffects txt vp w))"
    by (rule same_view_raised) (rule same_view_refl)
  then have "tracked 100 (parse_cues txt vp) (length (sequences w))
          (step (Call_speakWithSoundEffects txt vp) w)"
    using tracked_same_view [OF t] by simp
  then show ?thesis by (rule tracked_run)
qed

lemma in_order_after_call:
  "in_order 100 (parse_cues txt vp)
     (proj (length (sequences (run evs0 (new_AudioManager vs))))
        (history (run (evs0 @ Call_speakWithSoundEffects txt vp # evs) (new_AudioManager vs))))"
proof -
  have "wf_world (run evs0 (new_AudioManager vs))"
    by (rule wf_world_run [OF wf_world_new])
  from tracked_in_order [OF tracked_after_call [OF this]]
  show ?thesis by (simp add: run_append)
qed

lemma loops_step:
  "loops (step e w) = loops w \<or>
   (\<exists>n h. loops (step e w) = loops w @ [\<lparr>soundName = n, loopHandle = h, isPlaying = True\<rparr>]) \<or>
   (\<exists>n. loops (step e w) = filter (\<lambda>e. isPlaying e \<and> soundName e \<noteq> n) (loops w))"
proof (cases e)
  case (Call_play name cb v p l off)
  then show ?thesis by (simp add: raised_frame play_loops split: sum.splits)
next
  case (Call_stopLoop name)
  then show ?thesis by (auto simp: stopLoop_loops)
qed (simp_all add: Let_def seq_callback_frame raised_frame doNext_frame addSound_def
      speak_frame sws_frame cancel_frame time_passes_def split: callback.splits)

lemma all_playing_step: "all_playing w \<Longrightarrow> all_playing (step e w)"
  using loops_step [of e w] by (auto simp: all_playing_def)

lemma all_playing_run: "all_playing w \<Longrightarrow> all_playing (run evs w)"
  by (induction evs arbitrary: w) (simp_all add: all_playing_step)

lemma registry_all_playing: "all_playing (run evs (new_AudioManager vs))"
  by (rule all_playing_run) (simp add: all_playing_def new_AudioManager_def)

lemma doNext_result:
  assumes "hasNext (sequences w ! q)" and "seq_isPlaying (sequences w ! q)"
  shows "fst (doNext q w) =
     (if mediaType (hd (seq_queue (sequences w ! q))) = ''text'' then
        (case prefs (hd (seq_queue (sequences w ! q))) of
           None \<Rightarrow> Inl (TypeError ''firstItem.prefs is undefined'')
         | Some v \<Rightarrow> Inr ())
      else if mediaType (hd (seq_queue (sequences w ! q))) = ''sound'' then
        (case play_failure w (item (hd (seq_queue (sequences w ! q)))) of
           Some e \<Rightarrow> Inl e
         | None \<Rightarrow> Inr ())
      else Inl (Error ''invalid media type''))"
proof -
  have "play_failure (w\<lparr>sequences := x\<rparr>) n = play_failure w n" for x n
    by (rule play_failure_frame) simp_all
  then show ?thesis
    using assms
    by (simp add: doNext_alt Let_def play_result split: option.splits sum.splits)
qed

lemma doNext_failed:
  "isl (fst (doNext q w)) \<Longrightarrow>
   events (snd (doNext q w)) = events w \<and>
   utterances (snd (doNext q w)) = utterances w \<and>
   started (ctx (snd (doNext q w))) = started (ctx w)"
proof (cases "hasNext (sequences w ! q) \<and> seq_isPlaying (sequences w ! q)")
  case False
  then show ?thesis by (simp add: doNext_guard)
next
  case True
  let ?w1 = "w\<lparr>sequences := (sequences w)
      [q := (sequences w ! q)\<lparr>seq_queue := tl (seq_queue (sequences w ! q))\<rparr>]\<rparr>"
  let ?p = "play (item (hd (seq_queue (sequences w ! q))))
              (default_options\<lparr>callback := Some (SequenceCallback q)\<rparr>) ?w1"
  assume f: "isl (fst (doNext q w))"
  have "isl (fst ?p) \<Longrightarrow> events (snd ?p) = events w \<and> started (ctx (snd ?p)) = started (ctx w)"
    using play_failed [of "item (hd (seq_queue (sequences w ! q)))"
        "default_options\<lparr>callback := Some (SequenceCallback q)\<rparr>" ?w1] by simp
  then show ?thesis
    using True f
    by (auto simp: doNext_alt Let_def play_frame split: option.splits sum.splits if_splits)
qed

lemma sws_result:
  "fst (speakWithSoundEffects txt vp w) =
     (if is_sound (hd (parse_cues txt vp)) then
        (case play_failure w (item (hd (parse_cues txt vp))) of
           Some e \<Rightarrow> Inl e
         | None \<Rightarrow> Inr (length (sequences w)))
      else Inr (length (sequences w)))"
proof -
  let ?its = "parse_cues txt vp"
  let ?b = "born txt vp w"
  let ?q = "length (sequences w)"
  have ne: "?its \<noteq> []" by (rule parse_cues_nonempty)
  then have "hd ?its \<in> set ?its" by simp
  from parse_cues_kinds [OF this]
  have k: "(is_sound (hd ?its) \<and> prefs (hd ?its) = None) \<or>
           (is_text (hd ?its) \<and> prefs (hd ?its) = Some vp)" by blast
  have sb: "sequences ?b ! ?q = \<lparr>seq_queue = ?its, spacing = 100, playing = False,
      currentItem = None, seq_isPlaying = True\<rparr>"
    by (simp add: born_frame)
  have g: "hasNext (sequences ?b ! ?q)" "seq_isPlaying (sequences ?b ! ?q)"
    using ne by (simp_all add: sb hasNext_def)
  have lib: "play_failure ?b n = play_failure w n" for n
    by (rule play_failure_frame) (simp_all add: born_def)
  have r: "fst (doNext ?q ?b) =
     (if is_sound (hd ?its) then
        (case play_failure w (item (hd ?its)) of Some e \<Rightarrow> Inl e | None \<Rightarrow> Inr ())
      else Inr ())"
    using k by (auto simp: doNext_result [OF g] sb lib is_sound_def is_text_def
        split: option.splits)
  show ?thesis by (simp add: sws_alt r split: option.splits)
qed

lemma sws_failed:
  "isl (fst (speakWithSoundEffects txt vp w)) \<Longrightarrow>
   events (snd (speakWithSoundEffects txt vp w)) = events w \<and>
   utterances (snd (speakWithSoundEffects txt vp w)) = utterances w \<and>
   started (ctx (snd (speakWithSoundEffects txt vp w))) = started (ctx w)"
  using doNext_failed [of "length (sequences w)" "born txt vp w"]
  by (simp add: sws_alt born_def split: sum.splits)

lemma dispatched_doNext:
  "q' \<noteq> q \<or> \<not> seq_isPlaying (sequences w ! q) \<Longrightarrow>
   dispatched q (history (snd (doNext q' w))) = dispatched q (history w)"
  using doNext_ok_guard [of q' w]
  by (auto simp: doNext_history dispatched_def)

lemma cancelled_seq_callback:
  "cancelled q w \<Longrightarrow>
   cancelled q (seq_callback q' w) \<and>
   dispatched q (history (seq_callback q' w)) = dispatched q (history w)"
  by (cases "q' = q") (auto simp: cancelled_def seq_callback_frame dispatched_def)

lemma cancelled_step:
  assumes c: "cancelled q w"
  shows "cancelled q (step e w) \<and> dispatched q (history (step e w)) = dispatched q (history w)"
proof (cases e)
  case (Tick d)
  then show ?thesis using c by (simp add: cancelled_def time_passes_def)
next
  case (CallbackFires k)
  have c1: "cancelled q (w\<lparr>pending := remove_nth k (pending w)\<rparr>)"
    using c by (simp add: cancelled_def)
  show ?thesis
    using CallbackFires c c1 cancelled_seq_callback [OF c1]
    by (simp add: Let_def split: callback.splits)
next
  case (TimerFires k)
  let ?w1 = "w\<lparr>timers := remove_nth k (timers w)\<rparr>"
  let ?q' = "snd (timers w ! k)"
  have d: "dispatched q (history (snd (doNext ?q' ?w1))) = dispatched q (history w)"
    using dispatched_doNext [of ?q' q ?w1] c by (simp add: cancelled_def)
  have s: "cancelled q (snd (doNext ?q' ?w1))"
    using c by (cases "?q' = q") (simp_all add: cancelled_def doNext_sequences)
  show ?thesis using TimerFires c d s by (simp add: raised_frame cancelled_def)
next
  case (Call_addSound name b)
  then show ?thesis using c by (simp add: cancelled_def addSound_def)
next
  case (Call_play name cb v p l off)
  then show ?thesis using c by (simp add: cancelled_def raised_frame play_frame)
next
  case (Call_stopLoop name)
  then show ?thesis using c by (simp add: cancelled_def stopLoop_def)
next
  case (Call_speak tx cb vp rate)
  then show ?thesis using c by (simp add: cancelled_def speak_frame)
next
  case (Call_speakWithSoundEffects tx vp)
  let ?b = "born tx vp w"
  let ?n = "length (sequences w)"
  from c have q: "q < ?n" and np: "\<not> seq_isPlaying (sequences w ! q)"
    by (simp_all add: cancelled_def)
  have d: "dispatched q (history (snd (doNext ?n ?b))) = dispatched q (history w)"
    using dispatched_doNext [of ?n q ?b] q by (simp add: born_frame)
  have h: "history (snd (speakWithSoundEffects tx vp w)) = history (snd (doNext ?n ?b))"
    by (simp add: sws_alt split: sum.splits)
  show ?thesis
    using Call_speakWithSoundEffects q np d
    by (simp add: cancelled_def raised_frame sws_frame h)
next
  case (Call_cancel q')
  then show ?thesis using c
    by (auto simp: cancelled_def cancel_frame nth_list_update)
qed

lemma cancelled_run:
  "cancelled q w \<Longrightarrow>
   cancelled q (run evs w) \<and> dispatched q (history (run evs w)) = dispatched q (history w)"
proof (induction evs arbitrary: w)
  case Nil
  then show ?case by simp
next
  case (Cons e evs)
  from cancelled_step [OF Cons.prems, of e] Cons.IH [of "step e w"]
  show ?case by simp
qed

lemma cancel_cancels:
  "q < length (sequences w) \<Longrightarrow>
   cancelled q (cancel q w) \<and> seq_queue (sequences (cancel q w) ! q) = [] \<and>
   history (cancel q w) = history w"
  by (simp add: cancelled_def cancel_frame)

section \<open>The claims about the sequencer\<close>


lemma win_run_history:
  "history (run (win_call # win_schedule) win_world) =
     [Invoked 0 \<lparr>item = '' You win'', mediaType = ''text'', prefs = Some None\<rparr> 0,
      Finished 0 0,
      Invoked 0 \<lparr>item = ''win'', mediaType = ''sound'', prefs = None\<rparr> 100,
      Finished 0 100,
      Invoked 0 \<lparr>item = '' great job'', mediaType = ''text'', prefs = Some None\<rparr> 200,
      Finished 0 200]"
  by code_simp

lemma parse_cues_win:
  "parse_cues ''You win {{win}} great job'' vp =
     [\<lparr>item = '' You win'', mediaType = ''text'', prefs = Some vp\<rparr>,
      \<lparr>item = ''win'', mediaType = ''sound'', prefs = None\<rparr>,
      \<lparr>item = '' great job'', mediaType = ''text'', prefs = Some vp\<rparr>]"
  by (simp add: parse_cues_def split_space_def parse_tokens.simps(2) flush_buffer_def add_def)


lemma sws_pending:
  "prefix (pending w) (pending (snd (speakWithSoundEffects txt vp w)))"
  by (simp add: sws_alt doNext_pending born_frame split: sum.splits)

lemma sws_current_queue:
  "current_queue (snd (speakWithSoundEffects txt vp w)) =
     (if isl (fst (speakWithSoundEffects txt vp w)) then current_queue w
      else Some (length (sequences w)))"
  by (simp add: sws_alt doNext_frame born_def split: sum.splits)




text \<open>
  Claim C10. After any sequence of operations on a fresh manager (loads, \<^verbatim>\<open>play\<close>,
  \<^verbatim>\<open>stopLoop\<close>, and also narration, cancelling, callbacks and timers), every entry of
  the active-loop registry has its flag set: \<^verbatim>\<open>play\<close> only appends entries with the
  flag set, and \<^verbatim>\<open>stopLoop\<close> removes every entry whose flag it cleared.
\<close>

theorem registry_never_keeps_stopped_loop:
  "all_playing (run evs (new_AudioManager vs)) \<and>
   (\<forall>e \<in> set (loops (run evs (new_AudioManager vs))). isPlaying e)"
  using registry_all_playing [of evs vs] by (simp add: all_playing_def)

theorem registry_never_keeps_stopped_loop_witness:
  "all_playing (run (loop_events @ [Call_stopLoop ''a'']) (new_AudioManager [])) \<and>
   loops (run (loop_events @ [Call_stopLoop ''a'']) (new_AudioManager []))
     = [\<lparr>soundName = ''b'', loopHandle = 2, isPlaying = True\<rparr>]"
proof -
  have "loops (run (loop_events @ [Call_stopLoop ''a'']) (new_AudioManager []))
     = [\<lparr>soundName = ''b'', loopHandle = 2, isPlaying = True\<rparr>]"
    by (simp add: run_append loop_world_def [symmetric] stopLoop_loops loop_world_loops)
  then show ?thesis
    using registry_never_keeps_stopped_loop [of "loop_events @ [Call_stopLoop ''a'']" "[]"]
    by simp
qed

text \<open>
  Claim C4, as stated, fails: the parser puts a space before every token it appends to
  the text buffer, so the two texts are \<^verbatim>\<open>" You win"\<close> and \<^verbatim>\<open>" great job"\<close>.
\<close>

theorem win_queue_counterexample:
  "parse_cues ''You win {{win}} great job'' None \<noteq>
     [\<lparr>item = ''You win'', mediaType = ''text'', prefs = Some None\<rparr>,
      \<lparr>item = ''win'', mediaType = ''sound'', prefs = None\<rparr>,
      \<lparr>item = ''great job'', mediaType = ''text'', prefs = Some None\<rparr>]"
  by (simp add: parse_cues_win)

text \<open>
  Claim C4, amended. \<^verbatim>\<open>speakWithSoundEffects("You win {{win}} great job")\<close> produces
  exactly the queue text \<^verbatim>\<open>" You win"\<close>, sound \<^verbatim>\<open>"win"\<close>, text \<^verbatim>\<open>" great job"\<close>
  (each text with the leading space); in every run its items are dispatched in that
  order, each at least 100 ms after the completion of the one before; and with
  \<^verbatim>\<open>"win"\<close> registered and a browser that completes every item, all three are
  dispatched.
\<close>

theorem win_queue_and_dispatch:
  "parse_cues ''You win {{win}} great job'' vp =
     [\<lparr>item = '' You win'', mediaType = ''text'', prefs = Some vp\<rparr>,
      \<lparr>item = ''win'', mediaType = ''sound'', prefs = None\<rparr>,
      \<lparr>item = '' great job'', mediaType = ''text'', prefs = Some vp\<rparr>] \<and>
   in_order 100
     [\<lparr>item = '' You win'', mediaType = ''text'', prefs = Some vp\<rparr>,
      \<lparr>item = ''win'', mediaType = ''sound'', prefs = None\<rparr>,
      \<lparr>item = '' great job'', mediaType = ''text'', prefs = Some vp\<rparr>]
     (proj (length (sequences (run evs0 (new_AudioManager vs))))
        (history (run (evs0 @ Call_speakWithSoundEffects ''You win {{win}} great job'' vp # evs)
                    (new_AudioManager vs)))) \<and>
   soundLibrary win_world ''win'' = Some 7 \<and>
   history (run (win_call # win_schedule) win_world) =
     [Invoked 0 \<lparr>item = '' You win'', mediaType = ''text'', prefs = Some None\<rparr> 0,
      Finished 0 0,
      Invoked 0 \<lparr>item = ''win'', mediaType = ''sound'', prefs = None\<rparr> 100,
      Finished 0 100,
      Invoked 0 \<lparr>item = '' great job'', mediaType = ''text'', prefs = Some None\<rparr> 200,
      Finished 0 200]"
proof -
  have l: "soundLibrary win_world ''win'' = Some 7"
    by (simp add: win_world_def addSound_def)
  show ?thesis
    using in_order_after_call [of "''You win {{win}} great job''" vp evs0 vs evs]
      win_run_history l
    by (simp add: parse_cues_win)
qed

theorem win_queue_and_dispatch_witness:
  "map item (parse_cues ''You win {{win}} great job'' None)
     = ['' You win'', ''win'', '' great job''] \<and>
   dispatched 0 (history (run (win_call # win_schedule) win_world))
     = parse_cues ''You win {{win}} great job'' None"
  using win_queue_and_dispatch [of None "[]" "[]" "[]"]
  by (simp add: dispatched_def)

text \<open>
  Claim C1, as stated, fails: with a first narration in flight, a second call leaves the
  first queue active; when the first utterance completes and the spacing has passed, the
  first queue plays its sound \<^verbatim>\<open>"win"\<close>, after the second call has returned.
\<close>

theorem new_call_cancels_previous_counterexample:
  "current_queue (run overlap_prefix (new_AudioManager [])) = Some 1 \<and>
   dispatched 0 (history (run overlap_prefix (new_AudioManager [])))
     = [\<lparr>item = '' x'', mediaType = ''text'', prefs = Some None\<rparr>] \<and>
   dispatched 0 (history (run overlap_events (new_AudioManager [])))
     = [\<lparr>item = '' x'', mediaType = ''text'', prefs = Some None\<rparr>,
        \<lparr>item = ''win'', mediaType = ''sound'', prefs = None\<rparr>] \<and>
   events (run overlap_events (new_AudioManager []))
     = [SpeakEvent '' x'', SpeakEvent '' y'', SoundEffectEvent ''win'' 0 1 False]"
  by code_simp

text \<open>
  Claim C1, amended. A new \<^verbatim>\<open>speakWithSoundEffects\<close> call does not cancel the
  previous queue: it leaves every existing sequence object (its flag and its remaining
  items) and every timer as they were, keeps the pending completion callbacks (adding
  its own after them), and makes the new queue the manager's current one when it returns
  normally (when it fails, the current queue stays the one it was). A queue on which
  \<^verbatim>\<open>cancel\<close> is called hands no further item to \<^verbatim>\<open>speak\<close> or \<^verbatim>\<open>play\<close> afterwards,
  whatever happens.
\<close>

theorem new_call_keeps_previous_queue:
  "q < length (sequences w) \<Longrightarrow>
   sequences (snd (speakWithSoundEffects txt vp w)) ! q = sequences w ! q \<and>
   timers (snd (speakWithSoundEffects txt vp w)) = timers w \<and>
   prefix (pending w) (pending (snd (speakWithSoundEffects txt vp w))) \<and>
   current_queue (snd (speakWithSoundEffects txt vp w)) =
     (if isl (fst (speakWithSoundEffects txt vp w)) then current_queue w
      else Some (length (sequences w))) \<and>
   dispatched q (history (run evs (cancel q w))) = dispatched q (history w)"
proof -
  assume q: "q < length (sequences w)"
  have "dispatched q (history (run evs (cancel q w))) = dispatched q (history (cancel q w))"
    using cancelled_run [of q "cancel q w" evs] cancel_cancels [OF q] by simp
  then have d: "dispatched q (history (run evs (cancel q w))) = dispatched q (history w)"
    by (simp add: cancel_frame)
  show ?thesis
    using q d sws_pending [of w "txt" vp] sws_current_queue [of "txt" vp w]
    by (simp add: sws_frame)
qed

theorem new_call_keeps_previous_queue_witness:
  "seq_isPlaying (sequences (run overlap_prefix (new_AudioManager [])) ! 0) \<and>
   seq_queue (sequences (run overlap_prefix (new_AudioManager [])) ! 0)
     = [\<lparr>item = ''win'', mediaType = ''sound'', prefs = None\<rparr>] \<and>
   dispatched 0 (history (run [CallbackFires 0, Tick 100, TimerFires 0]
                    (cancel 0 (run overlap_prefix (new_AudioManager [])))))
     = [\<lparr>item = '' x'', mediaType = ''text'', prefs = Some None\<rparr>]"
proof -
  let ?w = "run [Call_addSound ''win'' 7, Call_speakWithSoundEffects ''x {{win}}'' None]
              (new_AudioManager [])"
  have q: "0 < length (sequences ?w)" by code_simp
  have s: "sequences ?w ! 0 = \<lparr>seq_queue = [\<lparr>item = ''win'', mediaType = ''sound'', prefs = None\<rparr>],
      spacing = 100, playing = False, currentItem = None, seq_isPlaying = True\<rparr>"
    by code_simp
  have r: "run overlap_prefix (new_AudioManager [])
             = raised (speakWithSoundEffects ''y'' None ?w)"
    by (simp add: overlap_prefix_def)
  have q2: "0 < length (sequences (run overlap_prefix (new_AudioManager [])))" by code_simp
  have h: "dispatched 0 (history (run overlap_prefix (new_AudioManager [])))
     = [\<lparr>item = '' x'', mediaType = ''text'', prefs = Some None\<rparr>]"
    by code_simp
  show ?thesis
    using new_call_keeps_previous_queue [OF q, of "''y''" None "[]"]
      new_call_keeps_previous_queue [OF q2, of "''y''" None
        "[CallbackFires 0, Tick 100, TimerFires 0]"] s h
    by (simp add: r raised_frame)
qed

text \<open>
  Claim C5, as stated, fails: no parse error exists. With \<^verbatim>\<open>"b"\<close> registered, the
  token \<^verbatim>\<open>a{{b}}c\<close> plays the sound \<^verbatim>\<open>"b"\<close>, and the unclosed \<^verbatim>\<open>{{name\<close> is
  spoken as text; both calls return their queue.
\<close>

theorem malformed_marker_counterexample:
  "fst (speakWithSoundEffects ''a{{b}}c'' None b_world) = Inr 0 \<and>
   events (snd (speakWithSoundEffects ''a{{b}}c'' None b_world))
     = [SoundEffectEvent ''b'' 0 1 False] \<and>
   fst (speakWithSoundEffects ''{{name'' None b_world) = Inr 0 \<and>
   events (snd (speakWithSoundEffects ''{{name'' None b_world)) = [SpeakEvent '' {{name'']"
  by code_simp

text \<open>
  Claim C5, amended. \<^verbatim>\<open>speakWithSoundEffects\<close> has no parse error. A token in which
  the pattern \<^verbatim>\<open>{{(.*)}}\<close> matches (anywhere in the token, as in \<^verbatim>\<open>a{{b}}c\<close>) becomes a
  sound cue named by the pattern's capture, after the text collected so far; a token in
  which it does not match (as the unclosed \<^verbatim>\<open>{{name\<close>) is appended to the text with a
  space before it. The call fails exactly when its first item is a sound cue on which
  \<^verbatim>\<open>play\<close> fails, and with the error of \<^verbatim>\<open>play\<close>: the not-found error when the name
  is no property of the sound library object, a TypeError when the name is a property
  that holds no audio buffer (an inherited one, as \<^verbatim>\<open>toString\<close>). A call that fails has
  dispatched no event, spoken nothing and started no source. Every other call returns
  the new queue.
\<close>

theorem markers_never_raise_parse_error:
  "(match_marker t = Some nm \<longrightarrow>
      parse_tokens vp (t # ts) buf [] =
        flush_buffer vp buf [] @ \<lparr>item = nm, mediaType = ''sound'', prefs = None\<rparr>
          # parse_tokens vp ts [] []) \<and>
   (match_marker t = None \<longrightarrow>
      parse_tokens vp (t # ts) buf [] = parse_tokens vp ts (buf @ '' '' @ t) []) \<and>
   match_marker ''a{{b}}c'' = Some ''b'' \<and> match_marker ''{{name'' = None \<and>
   fst (speakWithSoundEffects txt vp w) =
     (if is_sound (hd (parse_cues txt vp)) then
        (case play_failure w (item (hd (parse_cues txt vp))) of
           Some e \<Rightarrow> Inl e
         | None \<Rightarrow> Inr (length (sequences w)))
      else Inr (length (sequences w))) \<and>
   (isl (fst (speakWithSoundEffects txt vp w)) \<longrightarrow>
      events (snd (speakWithSoundEffects txt vp w)) = events w \<and>
      utterances (snd (speakWithSoundEffects txt vp w)) = utterances w \<and>
      started (ctx (snd (speakWithSoundEffects txt vp w))) = started (ctx w))"
proof -
  have m: "match_marker ''a{{b}}c'' = Some ''b''" "match_marker ''{{name'' = None"
    by simp_all
  show ?thesis
    using parse_tokens_marker [of t nm vp ts buf] parse_tokens_plain [of t vp ts buf] m
      sws_result [of "txt" vp w] sws_failed [of "txt" vp w]
    by blast
qed

theorem markers_never_raise_parse_error_witness:
  "parse_cues ''a{{b}}c'' None = [\<lparr>item = ''b'', mediaType = ''sound'', prefs = None\<rparr>] \<and>
   parse_cues ''{{name'' None
     = [\<lparr>item = '' {{name'', mediaType = ''text'', prefs = Some None\<rparr>] \<and>
   fst (speakWithSoundEffects ''a{{b}}c'' None (new_AudioManager []))
     = Inl (Error ''Sound b not found'') \<and>
   fst (speakWithSoundEffects ''{{toString}}'' None (new_AudioManager []))
     = Inl (TypeError ''The provided value is not of type AudioBuffer'') \<and>
   events (snd (speakWithSoundEffects ''{{toString}}'' None (new_AudioManager []))) = []"
proof -
  have l: "play_failure (new_AudioManager []) ''b'' = Some (Error ''Sound b not found'')"
    by (simp add: play_failure_def library_lookup_def object_prototype_names_def
        new_AudioManager_def)
  have l': "play_failure (new_AudioManager []) ''toString''
      = Some (TypeError ''The provided value is not of type AudioBuffer'')"
    by (simp add: play_failure_def library_lookup_def object_prototype_names_def
        new_AudioManager_def)
  have a: "parse_cues ''a{{b}}c'' None = [\<lparr>item = ''b'', mediaType = ''sound'', prefs = None\<rparr>]"
    using markers_never_raise_parse_error [of "''a{{b}}c''" "''b''" None "[]" "[]"]
    by (simp add: parse_cues_def split_space_def flush_buffer_def)
  have b: "parse_cues ''{{name'' None
     = [\<lparr>item = '' {{name'', mediaType = ''text'', prefs = Some None\<rparr>]"
    using markers_never_raise_parse_error [of "''{{name''" "''b''" None "[]" "[]"]
    by (simp add: parse_cues_def split_space_def flush_buffer_def add_def)
  have p: "parse_cues ''{{toString}}'' None
     = [\<lparr>item = ''toString'', mediaType = ''sound'', prefs = None\<rparr>]"
    by code_simp
  have c: "fst (speakWithSoundEffects ''a{{b}}c'' None (new_AudioManager []))
     = Inl (Error ''Sound b not found'')"
    using markers_never_raise_parse_error [of "[]" "[]" None "[]" "[]" "''a{{b}}c''"
        "new_AudioManager []"] l
    by (simp add: a is_sound_def)
  have d: "fst (speakWithSoundEffects ''{{toString}}'' None (new_AudioManager []))
     = Inl (TypeError ''The provided value is not of type AudioBuffer'')"
    using markers_never_raise_parse_error [of "[]" "[]" None "[]" "[]" "''{{toString}}''"
        "new_AudioManager []"] l'
    by (simp add: p is_sound_def)
  have e: "events (snd (speakWithSoundEffects ''{{toString}}'' None (new_AudioManager []))) = []"
    using markers_never_raise_parse_error [of "[]" "[]" None "[]" "[]" "''{{toString}}''"
        "new_AudioManager []"] d
    by (simp add: new_AudioManager_def)
  from a b c d e show ?thesis by blast
qed

text \<open>
  Claim C6, the failing input. A queue of two items is cancelled during the spacing
  delay after its first item; when the timer fires, \<^verbatim>\<open>doNext\<close> takes its else branch
  and calls \<^verbatim>\<open>this.shutdown()\<close>, which no class defines: a TypeError is raised. Until
  then no error had been raised, and nothing further is dispatched.
\<close>

theorem cancel_during_spacing_raises:
  "errors (run (butlast cancel_events) (new_AudioManager [])) = [] \<and>
   timers (run (butlast cancel_events) (new_AudioManager [])) = [(100, 0)] \<and>
   sequences (run (butlast cancel_events) (new_AudioManager [])) ! 0 =
     \<lparr>seq_queue = [], spacing = 100, playing = False, currentItem = None,
      seq_isPlaying = False\<rparr> \<and>
   errors (run cancel_events (new_AudioManager []))
     = [TypeError ''this.shutdown is not a function''] \<and>
   dispatched 0 (history (run cancel_events (new_AudioManager [])))
     = [\<lparr>item = '' x'', mediaType = ''text'', prefs = Some None\<rparr>]"
  by code_simp

theorem cancel_during_spacing_raises_witness:
  "errors (run cancel_events (new_AudioManager [])) \<noteq> []"
  using cancel_during_spacing_raises by simp

end
